theory Spec2Isabelle
  imports Complex_Main "HOL-Library.Multiset" "HOL-Library.Log_Nat"
    "HOL-Library.Char_ord" "HOL-Library.List_Lexorder" "HOL-Library.Product_Lexorder"
begin

section \<open>Stratified sampling (scripts/stratified\_sampling.py)\<close>

subsection \<open>Numbers\<close>

text \<open>
  Python's \<^verbatim>\<open>round\<close> on a float rounds to the nearest integer and a tie to the even
  neighbour.
\<close>

definition py_round :: "rat \<Rightarrow> int" where
  "py_round x =
     (let f = \<lfloor>x\<rfloor>; d = x - of_int f
      in if d < 1 / 2 then f
         else if 1 / 2 < d then f + 1
         else if even f then f else f + 1)"

text \<open>
  A float is an IEEE binary64 number: a rational with a significand of 53 bits. Every
  float operation of the sampler (converting an integer, dividing, multiplying) gives the
  exact result rounded to the nearest float, a tie to the even significand: \<open>fl64\<close> of
  the exact result. \<open>float_exponent x\<close> is the \<open>e\<close> with \<open>2 powi e \<le> \<bar>x\<bar> < 2 powi (e + 1)\<close>. The
  exponent range is not modelled (no overflow, no subnormal numbers): the sampler's floats
  are row counts, target sizes, their quotients and products.
\<close>

definition float_exponent :: "rat \<Rightarrow> int" where
  "float_exponent x =
     (case quotient_of \<bar>x\<bar> of
        (a, b) \<Rightarrow> (let d = bitlen a - bitlen b in if 2 powi d \<le> \<bar>x\<bar> then d else d - 1))"

definition fl64 :: "rat \<Rightarrow> rat" where
  "fl64 x =
     (if x = 0 then 0
      else (let ulp = 2 powi (float_exponent x - 52)
            in of_int (py_round (x / ulp)) * ulp))"

subsection \<open>Configuration\<close>

text \<open>
  The \<^verbatim>\<open>sample_sizes\<close> dictionary: the sampler reads exactly the keys Test, Control and
  Holdout. Values are Python integers, so they may be negative.
\<close>

record sample_sizes =
  Test :: int
  Control :: int
  Holdout :: int

definition DEFAULT_SAMPLE_SIZES :: sample_sizes where
  "DEFAULT_SAMPLE_SIZES = \<lparr>Test = 7500, Control = 7500, Holdout = 15000\<rparr>"

definition RANDOM_SEED :: int where
  "RANDOM_SEED = 42"

subsection \<open>Positional slices\<close>

text \<open>
  \<^verbatim>\<open>frame.iloc[a:b]\<close> follows Python's slice rules: a negative bound counts from the
  end, and every bound is clipped to the range of the table.
\<close>

definition slice_index :: "int \<Rightarrow> nat \<Rightarrow> nat" where
  "slice_index i n = (if i < 0 then nat (max 0 (i + int n)) else min (nat i) n)"

definition iloc :: "'a list \<Rightarrow> int \<Rightarrow> int \<Rightarrow> 'a list" where
  "iloc xs a b =
     (let s = slice_index a (length xs); e = slice_index b (length xs)
      in take (e - s) (drop s xs))"

subsection \<open>Segment counts and proportions\<close>

text \<open>
  \<^verbatim>\<open>df["Segment"].value_counts()\<close>: one entry per distinct segment with its number of
  rows, the larger counts first, ties in order of first appearance. The proportions are
  the float quotients of the counts, both converted to floats, by their sum.
\<close>

definition value_counts :: "string list \<Rightarrow> (string \<times> nat) list" where
  "value_counts xs =
     sort_key (\<lambda>p. - int (snd p)) (map (\<lambda>s. (s, count_list xs s)) (rev (remdups (rev xs))))"

definition segment_proportions :: "string list \<Rightarrow> (string \<times> rat) list" where
  "segment_proportions xs =
     (let segment_counts = value_counts xs;
          total = sum_list (map snd segment_counts)
      in map (\<lambda>(s, c). (s, fl64 (fl64 (of_nat c) / fl64 (of_nat total)))) segment_counts)"

subsection \<open>Per-segment allocation\<close>

text \<open>
  \<^verbatim>\<open>int(round(sample_sizes[g] * proportion))\<close>: the target, a Python integer, is converted
  to a float and multiplied by the float proportion.
\<close>

definition desired :: "int \<Rightarrow> rat \<Rightarrow> int" where
  "desired target proportion = py_round (fl64 (fl64 (of_int target) * proportion))"

definition total_needed :: "sample_sizes \<Rightarrow> rat \<Rightarrow> int" where
  "total_needed ss proportion =
     desired (Test ss) proportion + desired (Control ss) proportion
       + desired (Holdout ss) proportion"

text \<open>
  The three counts \<^verbatim>\<open>n_test, n_control, n_holdout\<close> after the shortfall adjustment.
  \<^verbatim>\<open>len(segment_data) / total_needed\<close> divides two Python integers: the exact quotient
  rounded to a float.
\<close>

definition allocate :: "sample_sizes \<Rightarrow> rat \<Rightarrow> nat \<Rightarrow> int \<times> int \<times> int" where
  "allocate ss proportion len =
     (let n_test = desired (Test ss) proportion;
          n_control = desired (Control ss) proportion;
          n_holdout = desired (Holdout ss) proportion;
          total = n_test + n_control + n_holdout
      in if int len < total then
           (let scaling_factor = fl64 (of_nat len / of_int total);
                n_test' = py_round (fl64 (fl64 (of_int n_test) * scaling_factor));
                n_control' = py_round (fl64 (fl64 (of_int n_control) * scaling_factor));
                n_holdout' = int len - n_test' - n_control'
            in (n_test', n_control', n_holdout'))
         else (n_test, n_control, n_holdout))"

subsection \<open>Shuffling and slicing one segment\<close>

text \<open>
  \<^verbatim>\<open>segment_data.sample(frac=1, random_state=seed)\<close> draws a permutation of the row
  positions from a generator created from the seed alone. The generator is numpy's; it is
  a parameter \<open>perm\<close> here: \<open>perm seed n\<close> is the order in which the \<open>n\<close> positions are
  taken.
\<close>

definition shuffle :: "(int \<Rightarrow> nat \<Rightarrow> nat list) \<Rightarrow> int \<Rightarrow> 'a list \<Rightarrow> 'a list" where
  "shuffle perm seed xs = map (\<lambda>i. xs ! i) (perm seed (length xs))"

definition valid_perm :: "(int \<Rightarrow> nat \<Rightarrow> nat list) \<Rightarrow> bool" where
  "valid_perm perm = (\<forall>seed n. mset (perm seed n) = mset [0..<n])"

definition sample_segment ::
  "(int \<Rightarrow> nat \<Rightarrow> nat list) \<Rightarrow> int \<Rightarrow> sample_sizes \<Rightarrow> rat \<Rightarrow> 'a list
     \<Rightarrow> 'a list \<times> 'a list \<times> 'a list" where
  "sample_segment perm seed ss proportion rows =
     (let segment_data = shuffle perm seed rows in
      case allocate ss proportion (length segment_data) of
        (n_test, n_control, n_holdout) \<Rightarrow>
          (iloc segment_data 0 n_test,
           iloc segment_data n_test (n_test + n_control),
           iloc segment_data (n_test + n_control) (n_test + n_control + n_holdout)))"

subsection \<open>The sampler\<close>

text \<open>
  The loop over the segments appends each segment's three slices to the three groups.
  \<open>seg\<close> reads a row's \<^verbatim>\<open>Segment\<close> column.
\<close>

fun sample_loop ::
  "(int \<Rightarrow> nat \<Rightarrow> nat list) \<Rightarrow> int \<Rightarrow> sample_sizes \<Rightarrow> ('a \<Rightarrow> string) \<Rightarrow> 'a list
     \<Rightarrow> (string \<times> rat) list \<Rightarrow> 'a list \<times> 'a list \<times> 'a list
     \<Rightarrow> 'a list \<times> 'a list \<times> 'a list" where
  "sample_loop perm seed ss seg df [] groups = groups"
| "sample_loop perm seed ss seg df ((segment, proportion) # rest)
       (test_group, control_group, holdout_group) =
     (case sample_segment perm seed ss proportion (filter (\<lambda>r. seg r = segment) df) of
        (t, c, h) \<Rightarrow>
          sample_loop perm seed ss seg df rest
            (test_group @ t, control_group @ c, holdout_group @ h))"

definition sample_groups ::
  "(int \<Rightarrow> nat \<Rightarrow> nat list) \<Rightarrow> ('a \<Rightarrow> string) \<Rightarrow> 'a list \<Rightarrow> sample_sizes option \<Rightarrow> int
     \<Rightarrow> 'a list \<times> 'a list \<times> 'a list" where
  "sample_groups perm seg df sizes seed =
     (let ss = (case sizes of None \<Rightarrow> DEFAULT_SAMPLE_SIZES | Some s \<Rightarrow> s)
      in sample_loop perm seed ss seg df (segment_proportions (map seg df)) ([], [], []))"

text \<open>The combined table: every row of a group with its \<^verbatim>\<open>Group\<close> label.\<close>

definition stratified_sample ::
  "(int \<Rightarrow> nat \<Rightarrow> nat list) \<Rightarrow> ('a \<Rightarrow> string) \<Rightarrow> 'a list \<Rightarrow> sample_sizes option \<Rightarrow> int
     \<Rightarrow> ('a \<times> string) list" where
  "stratified_sample perm seg df sizes seed =
     (case sample_groups perm seg df sizes seed of
        (test_group, control_group, holdout_group) \<Rightarrow>
          map (\<lambda>r. (r, ''Test'')) test_group
          @ map (\<lambda>r. (r, ''Control'')) control_group
          @ map (\<lambda>r. (r, ''Holdout'')) holdout_group)"

subsection \<open>A generator for evaluating examples\<close>

text \<open>
  One instance of the generator parameter: the positions rotated by the seed. It stands in
  for numpy's generator wherever an example is evaluated.
\<close>

definition rotation_perm :: "int \<Rightarrow> nat \<Rightarrow> nat list" where
  "rotation_perm seed n = rotate (nat (seed mod 7)) [0..<n]"

section \<open>Order history processing (scripts/data\_processing.py)\<close>

subsection \<open>The order table\<close>

text \<open>
  A row of the order table. A missing cell (NaN, or NaT for a date) is \<open>None\<close>. A date is
  (year, month, day); parsing the \<^verbatim>\<open>day\<close> column is not modelled.
\<close>

type_synonym date = "int \<times> int \<times> int"

record order_row =
  customer_id :: "string option"
  order_id :: "string option"
  day :: "date option"
  customer_email :: "string option"
  gross_sales :: rat
  discounts :: rat
  net_sales :: rat

subsection \<open>Cleaning\<close>

text \<open>
  \<^verbatim>\<open>column.astype(str)\<close> in pandas 2: a missing cell, which is NaN in a table read from
  CSV, becomes the three-letter string \<^verbatim>\<open>nan\<close>.
\<close>

definition astype_str :: "string option \<Rightarrow> string option" where
  "astype_str x = (case x of None \<Rightarrow> Some ''nan'' | Some s \<Rightarrow> Some s)"

definition clean_and_convert_data :: "order_row list \<Rightarrow> order_row list" where
  "clean_and_convert_data df =
     (let df = map (\<lambda>r. r\<lparr>customer_id := astype_str (customer_id r)\<rparr>) df;
          df = map (\<lambda>r. r\<lparr>order_id := astype_str (order_id r)\<rparr>) df;
          df = map (\<lambda>r. r\<lparr>customer_email := astype_str (customer_email r)\<rparr>) df
      in filter (\<lambda>r. customer_id r \<noteq> None \<and> customer_email r \<noteq> None \<and> order_id r \<noteq> None) df)"

subsection \<open>Aggregation\<close>

fun date_le :: "date \<Rightarrow> date \<Rightarrow> bool" where
  "date_le (y, m, d) (y', m', d') = (y < y' \<or> (y = y' \<and> (m < m' \<or> (m = m' \<and> d \<le> d'))))"

text \<open>The aggregation \<^verbatim>\<open>max\<close> of a date column: missing dates are skipped.\<close>

fun max_day :: "date option list \<Rightarrow> date option" where
  "max_day [] = None"
| "max_day (None # ds) = max_day ds"
| "max_day (Some d # ds) =
     (case max_day ds of None \<Rightarrow> Some d
      | Some d' \<Rightarrow> (if date_le d d' then Some d' else Some d))"

text \<open>
  \<^verbatim>\<open>df.groupby(['customer_id', 'customer_email'], observed=True)\<close>: \<^verbatim>\<open>groupby\<close> leaves
  out every row with a missing key (its \<^verbatim>\<open>dropna\<close> parameter is true by default) and
  lists the groups sorted by key: by customer id, then by email, strings compared
  character by character.
\<close>

definition group_keys :: "order_row list \<Rightarrow> (string \<times> string) list" where
  "group_keys df =
     sort (remdups (List.map_filter
       (\<lambda>r. case (customer_id r, customer_email r) of
               (Some i, Some e) \<Rightarrow> Some (i, e)
             | _ \<Rightarrow> None) df))"

definition group_rows :: "order_row list \<Rightarrow> string \<times> string \<Rightarrow> order_row list" where
  "group_rows df key =
     filter (\<lambda>r. customer_id r = Some (fst key) \<and> customer_email r = Some (snd key)) df"

record customer_summary =
  customer_id :: string
  customer_email :: "string option"
  frequency :: nat
  last_order_date :: "date option"
  gross_sales :: rat
  discounts :: rat
  net_sales :: rat
  recency :: "int option"

text \<open>
  One group's row: the named aggregations, then the recency in months. The monetary sums
  are exact; the rounding of float sums is not modelled.
\<close>

definition agg :: "order_row list \<Rightarrow> int \<times> int \<Rightarrow> string \<times> string \<Rightarrow> customer_summary" where
  "agg df current_date key =
     (let rows = group_rows df key;
          last = max_day (map day rows)
      in \<lparr>customer_id = fst key,
          customer_email = Some (snd key),
          frequency = length (remdups (List.map_filter order_id rows)),
          last_order_date = last,
          gross_sales = sum_list (map order_row.gross_sales rows),
          discounts = sum_list (map order_row.discounts rows),
          net_sales = sum_list (map order_row.net_sales rows),
          recency = map_option
            (\<lambda>(y, m, d). (fst current_date - y) * 12 + (snd current_date - m)) last\<rparr>)"

text \<open>The summary before the final \<^verbatim>\<open>dropna(subset=['customer_email'])\<close>.\<close>

definition grouped_summary :: "order_row list \<Rightarrow> int \<times> int \<Rightarrow> customer_summary list" where
  "grouped_summary df current_date = map (agg df current_date) (group_keys df)"

text \<open>
  \<open>current_date\<close> is (year, month). Writing the summary to
  \<^verbatim>\<open>customer_summary.csv\<close> and reading the clock when no date is given are effects;
  see \<open>aggregate_customer_data_call\<close>.
\<close>

definition aggregate_customer_data :: "order_row list \<Rightarrow> int \<times> int \<Rightarrow> customer_summary list" where
  "aggregate_customer_data df current_date =
     filter (\<lambda>s. customer_email s \<noteq> None) (grouped_summary df current_date)"

section \<open>Segmentation (bin\_customers)\<close>

subsection \<open>Bin edges\<close>

text \<open>
  A bin edge is a float: a finite number or \<^verbatim>\<open>np.inf\<close>. Metric values (recency in
  months, frequency as a count) are finite numbers.
\<close>

datatype edge = Edge rat | PosInf

fun edge_le :: "edge \<Rightarrow> edge \<Rightarrow> bool" where
  "edge_le (Edge a) (Edge b) = (a \<le> b)"
| "edge_le (Edge a) PosInf = True"
| "edge_le PosInf (Edge b) = False"
| "edge_le PosInf PosInf = True"

definition edge_less :: "edge \<Rightarrow> edge \<Rightarrow> bool" where
  "edge_less a b = (edge_le a b \<and> a \<noteq> b)"

text \<open>\<open>edge_le_val e v\<close>: the edge \<open>e\<close> is at most the value \<open>v\<close>.\<close>

fun edge_le_val :: "edge \<Rightarrow> rat \<Rightarrow> bool" where
  "edge_le_val (Edge a) v = (a \<le> v)"
| "edge_le_val PosInf v = False"

definition DEFAULT_RECENCY_BINS :: "edge list" where
  "DEFAULT_RECENCY_BINS =
     [Edge 0, Edge 1, Edge 2, Edge 3, Edge 4, Edge 5, Edge 6, Edge 7, Edge 13, Edge 25, Edge 37]"

definition DEFAULT_FREQUENCY_BINS :: "edge list" where
  "DEFAULT_FREQUENCY_BINS = [Edge 1, Edge 2, Edge 3, Edge 4, Edge 5, PosInf]"

text \<open>
  \<^verbatim>\<open>bins or DEFAULT\<close>: an argument that is \<^verbatim>\<open>None\<close> or an empty list is falsy and is
  replaced by the default.
\<close>

definition or_default :: "edge list option \<Rightarrow> edge list \<Rightarrow> edge list" where
  "or_default bins dflt =
     (case bins of None \<Rightarrow> dflt | Some bs \<Rightarrow> (if bs = [] then dflt else bs))"

subsection \<open>Labels\<close>

text \<open>The decimal numeral of a natural number, as \<^verbatim>\<open>f"{i}"\<close> prints it.\<close>

fun str_nat :: "nat \<Rightarrow> string" where
  "str_nat n =
     (if n < 10 then [''0123456789'' ! n]
      else str_nat (n div 10) @ [''0123456789'' ! (n mod 10)])"

declare str_nat.simps [simp del]

definition bin_labels :: "string \<Rightarrow> edge list \<Rightarrow> string list" where
  "bin_labels prefix bins = map (\<lambda>i. prefix @ str_nat i) [1..<length bins]"

subsection \<open>pandas.cut with a list of edges, right=False\<close>

datatype error = ValueError string

text \<open>\<^verbatim>\<open>Index.is_monotonic_increasing\<close>: no edge is smaller than the one before it.\<close>

fun monotonic_increasing :: "edge list \<Rightarrow> bool" where
  "monotonic_increasing (a # b # es) = (edge_le a b \<and> monotonic_increasing (b # es))"
| "monotonic_increasing es = True"

text \<open>
  \<^verbatim>\<open>bins.searchsorted(v, side="right")\<close> on edges that passed the monotonicity check:
  the number of leading edges that are at most \<open>v\<close>.
\<close>

definition searchsorted_right :: "edge list \<Rightarrow> rat \<Rightarrow> nat" where
  "searchsorted_right bins v = length (takeWhile (\<lambda>e. edge_le_val e v) bins)"

text \<open>
  The bucket number of a value, 1-based; none when the value is below the first edge
  (\<open>ids = 0\<close>) or not below the last one (\<open>ids = len(bins)\<close>).
\<close>

definition bucket_id :: "edge list \<Rightarrow> rat \<Rightarrow> nat option" where
  "bucket_id bins v =
     (let ids = searchsorted_right bins v
      in if ids = length bins \<or> ids = 0 then None else Some ids)"

definition pd_cut :: "rat list \<Rightarrow> edge list \<Rightarrow> string list \<Rightarrow> error + string option list" where
  "pd_cut xs bins labels =
     (if \<not> monotonic_increasing bins then
        Inl (ValueError ''bins must increase monotonically.'')
      else if \<not> distinct bins \<and> length bins \<noteq> 2 then
        Inl (ValueError ''Bin edges must be unique'')
      else if length labels \<noteq> length bins - 1 then
        Inl (ValueError ''Bin labels must be one fewer than the number of bin edges'')
      else Inr (map (\<lambda>v. map_option (\<lambda>ids. labels ! (ids - 1)) (bucket_id bins v)) xs))"

subsection \<open>The segmenter\<close>

text \<open>
  A row of the customer table. The bucket and segment columns are absent (\<open>None\<close>)
  before segmentation. The columns the segmenter never reads (email, dates, sales) are
  left out.
\<close>

record customer =
  customer_id :: string
  recency :: rat
  frequency :: rat
  Recency_Bucket :: "string option"
  Frequency_Bucket :: "string option"
  Segment :: "string option"

text \<open>
  The table after the two \<^verbatim>\<open>pd.cut\<close> assignments, \<^verbatim>\<open>dropna\<close> on the two bucket columns
  and the \<^verbatim>\<open>Segment\<close> assignment. (The CSV text that is returned with it is not
  modelled.)
\<close>

definition assign_buckets ::
  "customer list \<Rightarrow> string option list \<Rightarrow> string option list \<Rightarrow> customer list" where
  "assign_buckets df rs fs =
     map (\<lambda>(c, r, f). c\<lparr>Recency_Bucket := r, Frequency_Bucket := f\<rparr>) (zip df (zip rs fs))"

definition dropna_buckets :: "customer list \<Rightarrow> customer list" where
  "dropna_buckets df = filter (\<lambda>c. Recency_Bucket c \<noteq> None \<and> Frequency_Bucket c \<noteq> None) df"

definition assign_segment :: "customer list \<Rightarrow> customer list" where
  "assign_segment df =
     map (\<lambda>c. c\<lparr>Segment :=
            (case (Frequency_Bucket c, Recency_Bucket c) of
               (Some f, Some r) \<Rightarrow> Some (f @ ''_'' @ r)
             | _ \<Rightarrow> None)\<rparr>) df"

definition bin_customers ::
  "customer list \<Rightarrow> edge list option \<Rightarrow> edge list option \<Rightarrow> error + customer list" where
  "bin_customers df recency_bins frequency_bins =
     (let recency_bins = or_default recency_bins DEFAULT_RECENCY_BINS;
          frequency_bins = or_default frequency_bins DEFAULT_FREQUENCY_BINS;
          recency_labels = bin_labels ''R'' recency_bins;
          frequency_labels = bin_labels ''F'' frequency_bins
      in case pd_cut (map recency df) recency_bins recency_labels of
           Inl e \<Rightarrow> Inl e
         | Inr rs \<Rightarrow>
             (case pd_cut (map frequency df) frequency_bins frequency_labels of
                Inl e \<Rightarrow> Inl e
              | Inr fs \<Rightarrow> Inr (assign_segment (dropna_buckets (assign_buckets df rs fs)))))"

section \<open>Effects of the pipeline stages\<close>






section \<open>Properties of the sampler\<close>

subsection \<open>Rounding\<close>

lemma py_round_bounds:
  "of_int (py_round x) - 1 / 2 \<le> x \<and> x \<le> of_int (py_round x) + 1 / 2"
  unfolding py_round_def Let_def by (auto; linarith)

lemma py_round_nonneg: "0 \<le> x \<Longrightarrow> 0 \<le> py_round x"
  unfolding py_round_def Let_def by auto

subsection \<open>Floats\<close>

lemma bitlen_rat_bounds:
  assumes "0 < a"
  shows "(2 :: rat) powi (bitlen a - 1) \<le> of_int a" "(of_int a :: rat) < 2 powi bitlen a"
proof -
  have b: "2 ^ nat (bitlen a - 1) \<le> a" "a < 2 ^ nat (bitlen a)"
    using bitlen_bounds [OF assms] by simp_all
  have ge: "1 \<le> bitlen a"
    using assms bitlen_eq_zero_iff [of a] bitlen_nonneg [of a] by linarith
  have "(2 :: rat) powi (bitlen a - 1) = 2 ^ nat (bitlen a - 1)"
    using ge by (simp add: power_int_def)
  also have "\<dots> = of_int (2 ^ nat (bitlen a - 1))" by simp
  also have "\<dots> \<le> of_int a" using b(1) by (simp only: of_int_le_iff)
  finally show "(2 :: rat) powi (bitlen a - 1) \<le> of_int a" .
  have "(of_int a :: rat) < of_int (2 ^ nat (bitlen a))" using b(2) by (simp only: of_int_less_iff)
  also have "\<dots> = 2 ^ nat (bitlen a)" by simp
  also have "\<dots> = 2 powi bitlen a" using ge by (simp add: power_int_def)
  finally show "(of_int a :: rat) < 2 powi bitlen a" .
qed

lemma float_exponent_bounds:
  assumes "x \<noteq> 0"
  shows "2 powi float_exponent x \<le> \<bar>x\<bar>" "\<bar>x\<bar> < 2 powi (float_exponent x + 1)"
proof -
  obtain a b where q: "quotient_of \<bar>x\<bar> = (a, b)" by (cases "quotient_of \<bar>x\<bar>")
  then have bpos: "0 < b" and x: "\<bar>x\<bar> = of_int a / of_int b"
    by (simp_all add: quotient_of_denom_pos quotient_of_div)
  have "0 < \<bar>x\<bar>" using assms by simp
  then have apos: "0 < a" using bpos x by (simp add: zero_less_divide_iff)
  define d where "d = bitlen a - bitlen b"
  note A = bitlen_rat_bounds [OF apos]
  note B = bitlen_rat_bounds [OF bpos]
  have bq: "(0 :: rat) < of_int b" using bpos by simp
  have lo: "(2 :: rat) powi (d - 1) \<le> \<bar>x\<bar>"
  proof -
    have "(2 :: rat) powi (bitlen a - 1) / 2 powi bitlen b \<le> of_int a / of_int b"
    proof (rule frac_le)
      show "(0 :: rat) \<le> of_int a" using apos by simp
      show "(2 :: rat) powi (bitlen a - 1) \<le> of_int a" by (rule A(1))
      show "(0 :: rat) < of_int b" by (rule bq)
      show "(of_int b :: rat) \<le> 2 powi bitlen b" using B(2) by (rule less_imp_le)
    qed
    moreover have "(2 :: rat) powi (d - 1) = 2 powi (bitlen a - 1) / 2 powi bitlen b"
      by (simp add: d_def power_int_diff)
    ultimately show ?thesis by (simp add: x)
  qed
  have hi: "\<bar>x\<bar> < (2 :: rat) powi (d + 1)"
  proof -
    have "of_int a / of_int b < (2 :: rat) powi bitlen a / 2 powi (bitlen b - 1)"
    proof (rule frac_less)
      show "(0 :: rat) \<le> of_int a" using apos by simp
      show "(of_int a :: rat) < 2 powi bitlen a" by (rule A(2))
      show "(0 :: rat) < 2 powi (bitlen b - 1)" by simp
      show "(2 :: rat) powi (bitlen b - 1) \<le> of_int b" by (rule B(1))
    qed
    moreover have "(2 :: rat) powi bitlen a / 2 powi (bitlen b - 1) = 2 powi (d + 1)"
      by (simp add: d_def power_int_diff power_int_add)
    ultimately show ?thesis by (simp add: x)
  qed
  have e: "float_exponent x = (if 2 powi d \<le> \<bar>x\<bar> then d else d - 1)"
    by (simp add: float_exponent_def q d_def Let_def)
  show "2 powi float_exponent x \<le> \<bar>x\<bar>" using lo by (simp add: e)
  show "\<bar>x\<bar> < 2 powi (float_exponent x + 1)" using hi by (auto simp: e)
qed

lemma fl64_nonneg: "0 \<le> x \<Longrightarrow> 0 \<le> fl64 x"
  by (simp add: fl64_def Let_def py_round_nonneg)

lemma fl64_error: "\<bar>fl64 x - x\<bar> \<le> \<bar>x\<bar> / 2 ^ 53"
proof (cases "x = 0")
  case True
  then show ?thesis by (simp add: fl64_def)
next
  case False
  define ulp :: rat where "ulp = 2 powi (float_exponent x - 52)"
  have pos: "0 < ulp" by (simp add: ulp_def)
  have f: "fl64 x = of_int (py_round (x / ulp)) * ulp"
    using False by (simp add: fl64_def ulp_def Let_def)
  have "\<bar>of_int (py_round (x / ulp)) - x / ulp\<bar> \<le> 1 / 2"
    using py_round_bounds [of "x / ulp"] by linarith
  then have "\<bar>of_int (py_round (x / ulp)) - x / ulp\<bar> * ulp \<le> 1 / 2 * ulp"
    using pos by (intro mult_right_mono) simp_all
  moreover have "\<bar>of_int (py_round (x / ulp)) - x / ulp\<bar> * ulp = \<bar>fl64 x - x\<bar>"
  proof -
    have "\<bar>of_int (py_round (x / ulp)) - x / ulp\<bar> * ulp
            = \<bar>(of_int (py_round (x / ulp)) - x / ulp) * ulp\<bar>"
      using pos by (simp add: abs_mult)
    also have "(of_int (py_round (x / ulp)) - x / ulp) * ulp = fl64 x - x"
      using pos by (simp add: f left_diff_distrib)
    finally show ?thesis .
  qed
  moreover have "1 / 2 * ulp = 2 powi float_exponent x / 2 ^ 53"
    by (simp add: ulp_def power_int_diff)
  moreover have "2 powi float_exponent x / 2 ^ 53 \<le> \<bar>x\<bar> / 2 ^ 53"
    using float_exponent_bounds(1) [OF False] by (simp add: divide_right_mono)
  ultimately show ?thesis by linarith
qed

lemma desired_nonneg: "0 \<le> t \<Longrightarrow> 0 \<le> p \<Longrightarrow> 0 \<le> desired t p"
  by (simp add: desired_def py_round_nonneg fl64_nonneg)

lemma scaled_nonneg:
  assumes "0 \<le> a" "0 < t"
  shows "0 \<le> py_round (fl64 (fl64 (of_int a) * fl64 (of_nat L / of_int t)))"
  using assms by (intro py_round_nonneg fl64_nonneg mult_nonneg_nonneg) simp_all

subsection \<open>Slices and shuffles\<close>

lemma slice_index_le: "slice_index i n \<le> n"
  by (auto simp: slice_index_def)

lemma length_iloc:
  "length (iloc xs a b) = slice_index b (length xs) - slice_index a (length xs)"
  using slice_index_le [of b "length xs"] by (auto simp: iloc_def Let_def)

lemma mset_rotate_eq: "mset (rotate k xs) = mset xs"
proof -
  define m where "m = k mod length xs"
  have "mset (rotate k xs) = mset (drop m xs) + mset (take m xs)"
    by (simp add: rotate_drop_take m_def)
  also have "\<dots> = mset (take m xs @ drop m xs)"
    by (simp del: append_take_drop_id)
  finally show ?thesis by simp
qed

lemma valid_rotation_perm: "valid_perm rotation_perm"
  unfolding valid_perm_def rotation_perm_def by (intro allI mset_rotate_eq)

lemma length_shuffle:
  assumes "valid_perm perm"
  shows "length (shuffle perm seed xs) = length xs"
proof -
  from assms have "mset (perm seed (length xs)) = mset [0..<length xs]"
    by (simp add: valid_perm_def)
  then have "length (perm seed (length xs)) = length [0..<length xs]"
    by (rule mset_eq_length)
  then show ?thesis by (simp add: shuffle_def)
qed

lemma slices_cover:
  assumes "0 \<le> a" "0 \<le> b"
  shows "length (iloc xs 0 a) + length (iloc xs a (a + b))
           + length (iloc xs (a + b) (a + b + (int (length xs) - a - b))) = length xs"
  using assms by (auto simp: length_iloc slice_index_def)

subsection \<open>Shortfall\<close>

text \<open>
  C2. In a segment in shortfall (the rounded desired counts add up to more than the
  segment has rows) the three adjusted counts add up to exactly the number of rows of the
  segment; and when no target is negative the three slices taken from the shuffled
  segment hold exactly that many rows together.
\<close>

theorem shortfall_counts_exhaust_segment:
  assumes "int (length rows) < total_needed ss p"
  shows "(case allocate ss p (length rows) of
            (n_test, n_control, n_holdout) \<Rightarrow> n_test + n_control + n_holdout = int (length rows))
       \<and> (valid_perm perm \<and> 0 \<le> Test ss \<and> 0 \<le> Control ss \<and> 0 \<le> Holdout ss \<and> 0 \<le> p \<longrightarrow>
            (case sample_segment perm seed ss p rows of
               (t, c, h) \<Rightarrow> length t + length c + length h = length rows))"
proof (intro conjI impI)
  show "case allocate ss p (length rows) of
            (n_test, n_control, n_holdout) \<Rightarrow> n_test + n_control + n_holdout = int (length rows)"
    using assms by (simp add: allocate_def total_needed_def Let_def)
next
  assume h: "valid_perm perm \<and> 0 \<le> Test ss \<and> 0 \<le> Control ss \<and> 0 \<le> Holdout ss \<and> 0 \<le> p"
  define sd where "sd = shuffle perm seed rows"
  define T where "T = total_needed ss p"
  define a where "a = py_round (fl64 (fl64 (of_int (desired (Test ss) p))
                                        * fl64 (of_nat (length sd) / of_int T)))"
  define b where "b = py_round (fl64 (fl64 (of_int (desired (Control ss) p))
                                        * fl64 (of_nat (length sd) / of_int T)))"
  have len: "length sd = length rows" using h by (simp add: sd_def length_shuffle)
  have T: "int (length sd) < T" using assms len by (simp add: T_def)
  then have Tpos: "0 < T" by linarith
  have nn: "0 \<le> desired (Test ss) p" "0 \<le> desired (Control ss) p" "0 \<le> desired (Holdout ss) p"
    using h by (simp_all add: desired_nonneg)
  have a: "0 \<le> a"
    unfolding a_def by (rule scaled_nonneg [OF nn(1) Tpos])
  have b: "0 \<le> b"
    unfolding b_def by (rule scaled_nonneg [OF nn(2) Tpos])
  have alloc: "allocate ss p (length sd) = (a, b, int (length sd) - a - b)"
    using T by (simp add: allocate_def Let_def a_def b_def T_def total_needed_def)
  have "sample_segment perm seed ss p rows =
          (iloc sd 0 a, iloc sd a (a + b), iloc sd (a + b) (a + b + (int (length sd) - a - b)))"
    by (simp add: sample_segment_def Let_def sd_def [symmetric] alloc)
  then show "case sample_segment perm seed ss p rows of
               (t, c, h) \<Rightarrow> length t + length c + length h = length rows"
    using slices_cover [OF a b, of sd] len by simp
qed

theorem shortfall_counts_exhaust_segment_witness:
  "int (length [1, 2, 3, 4, 5, 6, 7, 8, 9, 10 :: nat])
     < total_needed \<lparr>Test = 4, Control = 4, Holdout = 4\<rparr> 1
   \<and> allocate \<lparr>Test = 4, Control = 4, Holdout = 4\<rparr> 1
        (length [1, 2, 3, 4, 5, 6, 7, 8, 9, 10 :: nat]) = (3, 3, 4)
   \<and> (case sample_segment rotation_perm 42 \<lparr>Test = 4, Control = 4, Holdout = 4\<rparr> 1
             [1, 2, 3, 4, 5, 6, 7, 8, 9, 10 :: nat] of
         (t, c, h) \<Rightarrow> length t + length c + length h = length [1, 2, 3, 4, 5, 6, 7, 8, 9, 10 :: nat])"
proof -
  have h: "int (length [1, 2, 3, 4, 5, 6, 7, 8, 9, 10 :: nat])
             < total_needed \<lparr>Test = 4, Control = 4, Holdout = 4\<rparr> 1"
    by code_simp
  have a: "allocate \<lparr>Test = 4, Control = 4, Holdout = 4\<rparr> 1
        (length [1, 2, 3, 4, 5, 6, 7, 8, 9, 10 :: nat]) = (3, 3, 4)"
    by code_simp
  show ?thesis
    using h a shortfall_counts_exhaust_segment [OF h, of rotation_perm 42] valid_rotation_perm
    by simp
qed

subsection \<open>Counts per segment\<close>

lemma allocate_sum_le:
  "(case allocate ss p len of (n_test, n_control, n_holdout) \<Rightarrow>
      n_test + n_control + n_holdout \<le> int len)"
  by (simp add: allocate_def Let_def)

text \<open>
  C1. The counts of one segment never add up to more than the segment has rows
  (\<open>allocate_sum_le\<close>), but a count can be negative. Six customers in two segments of
  three, with the targets Test = 4, Control = 4, Holdout = 1: each segment has proportion
  1/2, the desired counts are 2, 2 and 0, the scaled counts 1.5 and 1.5 both round to 2,
  and the remainder given to Holdout is 3 - 2 - 2 = -1.
\<close>

theorem holdout_count_negative:
  "segment_proportions [''F1_R1'', ''F1_R1'', ''F1_R1'', ''F2_R1'', ''F2_R1'', ''F2_R1'']
     = [(''F1_R1'', 1 / 2), (''F2_R1'', 1 / 2)]
   \<and> allocate \<lparr>Test = 4, Control = 4, Holdout = 1\<rparr> (1 / 2) 3 = (2, 2, - 1)"
  by code_simp

subsection \<open>Groups of one run\<close>


lemma sample_loop_concat:
  "sample_loop perm seed ss seg df props (T, C, H) =
     (T @ concat (map (\<lambda>sp. fst (sample_segment perm seed ss (snd sp)
                                   (filter (\<lambda>r. seg r = fst sp) df))) props),
      C @ concat (map (\<lambda>sp. fst (snd (sample_segment perm seed ss (snd sp)
                                   (filter (\<lambda>r. seg r = fst sp) df)))) props),
      H @ concat (map (\<lambda>sp. snd (snd (sample_segment perm seed ss (snd sp)
                                   (filter (\<lambda>r. seg r = fst sp) df)))) props))"
  by (induction props arbitrary: T C H) (auto split: prod.splits)

lemma iloc_eq_drop_take:
  "iloc xs a b = drop (slice_index a (length xs)) (take (slice_index b (length xs)) xs)"
  by (simp add: iloc_def Let_def drop_take)

lemma set_iloc_subset: "set (iloc xs a b) \<subseteq> set xs"
  unfolding iloc_def Let_def
  by (meson set_take_subset set_drop_subset subset_trans)

lemma iloc_disjoint:
  assumes "distinct xs" "slice_index b (length xs) \<le> slice_index c (length xs)"
  shows "set (iloc xs a b) \<inter> set (iloc xs c d) = {}"
proof -
  have 1: "set (iloc xs a b) \<subseteq> set (take (slice_index b (length xs)) xs)"
    unfolding iloc_eq_drop_take by (rule set_drop_subset)
  have 2: "set (iloc xs c d) \<subseteq> set (drop (slice_index c (length xs)) xs)"
    unfolding iloc_def Let_def by (rule set_take_subset)
  have "set (take (slice_index b (length xs)) xs) \<inter> set (drop (slice_index c (length xs)) xs) = {}"
    using assms by (rule set_take_disj_set_drop_if_distinct)
  with 1 2 show ?thesis by blast
qed

lemma slice_index_mono: "0 \<le> a \<Longrightarrow> a \<le> b \<Longrightarrow> slice_index a n \<le> slice_index b n"
  by (auto simp: slice_index_def)

lemma mset_shuffle:
  assumes "valid_perm perm"
  shows "mset (shuffle perm seed xs) = mset xs"
proof -
  have "mset (shuffle perm seed xs) = image_mset (\<lambda>i. xs ! i) (mset (perm seed (length xs)))"
    by (simp add: shuffle_def)
  also have "\<dots> = image_mset (\<lambda>i. xs ! i) (mset [0..<length xs])"
    using assms by (simp add: valid_perm_def)
  also have "\<dots> = mset (map (\<lambda>i. xs ! i) [0..<length xs])"
    by (simp del: mset_upt)
  also have "\<dots> = mset xs" by (simp add: map_nth)
  finally show ?thesis .
qed

lemma allocate_nonneg:
  assumes "0 \<le> Test ss" "0 \<le> Control ss" "0 \<le> p" "allocate ss p len = (a, b, c)"
  shows "0 \<le> a \<and> 0 \<le> b"
proof (cases "int len < total_needed ss p")
  case True
  then have pos: "0 < total_needed ss p" by linarith
  have nn: "0 \<le> desired (Test ss) p" "0 \<le> desired (Control ss) p"
    using assms by (simp_all add: desired_nonneg)
  have "a = py_round (fl64 (fl64 (of_int (desired (Test ss) p))
                              * fl64 (of_nat len / of_int (total_needed ss p))))"
       "b = py_round (fl64 (fl64 (of_int (desired (Control ss) p))
                              * fl64 (of_nat len / of_int (total_needed ss p))))"
    using assms(4) True by (simp_all add: allocate_def Let_def total_needed_def)
  then show ?thesis
    using scaled_nonneg [OF nn(1) pos] scaled_nonneg [OF nn(2) pos] by simp
next
  case False
  then have "a = desired (Test ss) p" "b = desired (Control ss) p"
    using assms(4) by (simp_all add: allocate_def Let_def total_needed_def)
  then show ?thesis using assms by (simp add: desired_nonneg)
qed

lemma sample_segment_disjoint:
  assumes "valid_perm perm" "distinct rows" "0 \<le> Test ss" "0 \<le> Control ss" "0 \<le> p"
    and "sample_segment perm seed ss p rows = (t, c, h)"
  shows "set t \<inter> set c = {} \<and> set t \<inter> set h = {} \<and> set c \<inter> set h = {}"
proof -
  define sd where "sd = shuffle perm seed rows"
  obtain a b k where alloc: "allocate ss p (length sd) = (a, b, k)"
    by (cases "allocate ss p (length sd)") auto
  have nn: "0 \<le> a" "0 \<le> b" using allocate_nonneg [OF assms(3,4,5) alloc] by simp_all
  have d: "distinct sd"
    using mset_shuffle [OF assms(1), of seed rows] assms(2)
    by (metis sd_def mset_eq_imp_distinct_iff)
  have tch: "t = iloc sd 0 a" "c = iloc sd a (a + b)" "h = iloc sd (a + b) (a + b + k)"
    using assms(6) by (simp_all add: sample_segment_def Let_def sd_def [symmetric] alloc)
  have "slice_index a (length sd) \<le> slice_index (a + b) (length sd)"
    using nn by (intro slice_index_mono) simp_all
  then show ?thesis
    unfolding tch using d by (simp add: iloc_disjoint)
qed

lemma sample_segment_subset:
  assumes "valid_perm perm" "sample_segment perm seed ss p rows = (t, c, h)"
  shows "set t \<subseteq> set rows \<and> set c \<subseteq> set rows \<and> set h \<subseteq> set rows"
proof -
  define sd where "sd = shuffle perm seed rows"
  have "set sd = set rows"
    using mset_shuffle [OF assms(1), of seed rows] by (metis sd_def mset_eq_setD)
  moreover obtain a b k where "allocate ss p (length sd) = (a, b, k)"
    by (cases "allocate ss p (length sd)") auto
  ultimately show ?thesis
    using assms(2) set_iloc_subset [of sd]
    by (auto simp: sample_segment_def Let_def sd_def [symmetric])
qed


lemma map_fst_segment_proportions:
  "map fst (segment_proportions xs) = map fst (value_counts xs)"
  by (simp add: segment_proportions_def Let_def case_prod_beta comp_def)

lemma mset_value_counts:
  "mset (value_counts xs) = mset (map (\<lambda>s. (s, count_list xs s)) (rev (remdups (rev xs))))"
  by (simp add: value_counts_def)

lemma distinct_segment_proportions: "distinct (map fst (segment_proportions xs))"
proof -
  have "mset (map fst (value_counts xs)) = mset (rev (remdups (rev xs)))"
    unfolding mset_map mset_value_counts by (simp add: image_mset.compositionality comp_def)
  moreover have "distinct (rev (remdups (rev xs)))" by simp
  ultimately show ?thesis
    unfolding map_fst_segment_proportions by (metis mset_eq_imp_distinct_iff)
qed

lemma segment_proportions_nonneg: "(s, p) \<in> set (segment_proportions xs) \<Longrightarrow> 0 \<le> p"
  by (auto simp: segment_proportions_def Let_def intro!: fl64_nonneg divide_nonneg_nonneg)

text \<open>
  C9 (as amended). When the rows of the input are pairwise different and neither the Test
  nor the Control target is negative, the Test, Control and Holdout groups of one run are
  pairwise disjoint: no input row is in two groups. (A negative count makes a slice bound
  count from the end of the segment, and slices may then overlap.)
\<close>

theorem groups_pairwise_disjoint:
  assumes "valid_perm perm" and "distinct df"
    and "0 \<le> Test (case sizes of None \<Rightarrow> DEFAULT_SAMPLE_SIZES | Some s \<Rightarrow> s)"
    and "0 \<le> Control (case sizes of None \<Rightarrow> DEFAULT_SAMPLE_SIZES | Some s \<Rightarrow> s)"
  shows "(case sample_groups perm seg df sizes seed of
            (test_group, control_group, holdout_group) \<Rightarrow>
              set test_group \<inter> set control_group = {}
            \<and> set test_group \<inter> set holdout_group = {}
            \<and> set control_group \<inter> set holdout_group = {})"
proof -
  define ss where "ss = (case sizes of None \<Rightarrow> DEFAULT_SAMPLE_SIZES | Some s \<Rightarrow> s)"
  define props where "props = segment_proportions (map seg df)"
  define part where
    "part = (\<lambda>sp. sample_segment perm seed ss (snd sp) (filter (\<lambda>r. seg r = fst sp) df))"
  have nn: "0 \<le> Test ss" "0 \<le> Control ss" using assms(3,4) by (simp_all add: ss_def)
  have groups: "sample_groups perm seg df sizes seed =
      (concat (map (\<lambda>sp. fst (part sp)) props),
       concat (map (\<lambda>sp. fst (snd (part sp))) props),
       concat (map (\<lambda>sp. snd (snd (part sp))) props))"
    by (simp add: sample_groups_def Let_def ss_def [symmetric] props_def [symmetric]
        sample_loop_concat part_def)
  have sub: "x \<in> set (fst (part sp)) \<or> x \<in> set (fst (snd (part sp)))
               \<or> x \<in> set (snd (snd (part sp))) \<Longrightarrow> seg x = fst sp" for sp x
    using sample_segment_subset [OF assms(1), of seed ss "snd sp" "filter (\<lambda>r. seg r = fst sp) df"
        "fst (part sp)" "fst (snd (part sp))" "snd (snd (part sp))"]
    by (auto simp: part_def)
  have dis: "set (fst (part sp)) \<inter> set (fst (snd (part sp))) = {}
           \<and> set (fst (part sp)) \<inter> set (snd (snd (part sp))) = {}
           \<and> set (fst (snd (part sp))) \<inter> set (snd (snd (part sp))) = {}"
    if "sp \<in> set props" for sp
  proof -
    have "0 \<le> snd sp"
      using that segment_proportions_nonneg [of "fst sp" "snd sp" "map seg df"]
      by (simp add: props_def)
    moreover have "distinct (filter (\<lambda>r. seg r = fst sp) df)" using assms(2) by simp
    ultimately show ?thesis
      using sample_segment_disjoint [OF assms(1) _ nn, of "filter (\<lambda>r. seg r = fst sp) df"
          "snd sp" seed "fst (part sp)" "fst (snd (part sp))" "snd (snd (part sp))"]
      by (simp add: part_def)
  qed
  have same: "sp = sp'" if "sp \<in> set props" "sp' \<in> set props" "fst sp = fst sp'" for sp sp'
    using that distinct_segment_proportions [of "map seg df"]
    by (simp add: props_def [symmetric] distinct_map inj_on_def)
  have "set (concat (map (\<lambda>sp. fst (part sp)) props))
          \<inter> set (concat (map (\<lambda>sp. fst (snd (part sp))) props)) = {}"
  proof (rule ccontr)
    assume "\<not> ?thesis"
    then obtain x sp sp' where x: "sp \<in> set props" "sp' \<in> set props"
      "x \<in> set (fst (part sp))" "x \<in> set (fst (snd (part sp')))" by auto
    then have "seg x = fst sp" "seg x = fst sp'" by (simp_all add: sub)
    then have "fst sp = fst sp'" by simp
    then have "sp = sp'" using same x by blast
    then show False using dis [of sp] x by blast
  qed
  moreover have "set (concat (map (\<lambda>sp. fst (part sp)) props))
          \<inter> set (concat (map (\<lambda>sp. snd (snd (part sp))) props)) = {}"
  proof (rule ccontr)
    assume "\<not> ?thesis"
    then obtain x sp sp' where x: "sp \<in> set props" "sp' \<in> set props"
      "x \<in> set (fst (part sp))" "x \<in> set (snd (snd (part sp')))" by auto
    then have "seg x = fst sp" "seg x = fst sp'" by (simp_all add: sub)
    then have "fst sp = fst sp'" by simp
    then have "sp = sp'" using same x by blast
    then show False using dis [of sp] x by blast
  qed
  moreover have "set (concat (map (\<lambda>sp. fst (snd (part sp))) props))
          \<inter> set (concat (map (\<lambda>sp. snd (snd (part sp))) props)) = {}"
  proof (rule ccontr)
    assume "\<not> ?thesis"
    then obtain x sp sp' where x: "sp \<in> set props" "sp' \<in> set props"
      "x \<in> set (fst (snd (part sp)))" "x \<in> set (snd (snd (part sp')))" by auto
    then have "seg x = fst sp" "seg x = fst sp'" by (simp_all add: sub)
    then have "fst sp = fst sp'" by simp
    then have "sp = sp'" using same x by blast
    then show False using dis [of sp] x by blast
  qed
  ultimately show ?thesis by (simp add: groups)
qed


theorem groups_pairwise_disjoint_witness:
  "valid_perm rotation_perm
   \<and> distinct [(''F1_R1'', 1 :: nat), (''F1_R1'', 2), (''F1_R1'', 3),
                (''F2_R1'', 4), (''F2_R1'', 5), (''F2_R1'', 6)]
   \<and> 0 \<le> Test (case Some \<lparr>Test = 2, Control = 2, Holdout = 2\<rparr> of
                   None \<Rightarrow> DEFAULT_SAMPLE_SIZES | Some s \<Rightarrow> s)
   \<and> 0 \<le> Control (case Some \<lparr>Test = 2, Control = 2, Holdout = 2\<rparr> of
                   None \<Rightarrow> DEFAULT_SAMPLE_SIZES | Some s \<Rightarrow> s)
   \<and> (case sample_groups rotation_perm fst
              [(''F1_R1'', 1 :: nat), (''F1_R1'', 2), (''F1_R1'', 3),
               (''F2_R1'', 4), (''F2_R1'', 5), (''F2_R1'', 6)]
              (Some \<lparr>Test = 2, Control = 2, Holdout = 2\<rparr>) 42 of
         (test_group, control_group, holdout_group) \<Rightarrow>
           set test_group \<inter> set control_group = {}
         \<and> set test_group \<inter> set holdout_group = {}
         \<and> set control_group \<inter> set holdout_group = {})"
proof -
  have d: "distinct [(''F1_R1'', 1 :: nat), (''F1_R1'', 2), (''F1_R1'', 3),
                (''F2_R1'', 4), (''F2_R1'', 5), (''F2_R1'', 6)]"
    by simp
  have t: "0 \<le> Test (case Some \<lparr>Test = 2, Control = 2, Holdout = 2\<rparr> of
                   None \<Rightarrow> DEFAULT_SAMPLE_SIZES | Some s \<Rightarrow> s)"
    by simp
  have c: "0 \<le> Control (case Some \<lparr>Test = 2, Control = 2, Holdout = 2\<rparr> of
                   None \<Rightarrow> DEFAULT_SAMPLE_SIZES | Some s \<Rightarrow> s)"
    by simp
  show ?thesis
    using valid_rotation_perm d t c
      groups_pairwise_disjoint [OF valid_rotation_perm d t c, of fst 42]
    by blast
qed

subsection \<open>Segment proportions\<close>

lemma sum_counts_value_counts: "sum_list (map snd (value_counts xs)) = length xs"
proof -
  have "sum_list (map snd (value_counts xs)) = sum_mset (image_mset snd (mset (value_counts xs)))"
    by (metis mset_map sum_mset_sum_list)
  also have "\<dots> = sum_mset (mset (map (count_list xs) (rev (remdups (rev xs)))))"
    unfolding mset_value_counts by (simp add: image_mset.compositionality comp_def)
  also have "\<dots> = sum_list (map (count_list xs) (rev (remdups (rev xs))))"
    by (rule sum_mset_sum_list)
  also have "\<dots> = sum (count_list xs) (set (rev (remdups (rev xs))))"
    by (rule sum_list_distinct_conv_sum_set) simp
  also have "\<dots> = length xs"
    by (simp add: sum_count_set)
  finally show ?thesis .
qed

lemma segment_proportions_eq:
  "segment_proportions xs =
     map (\<lambda>(s, c). (s, fl64 (fl64 (of_nat c) / fl64 (of_nat (length xs))))) (value_counts xs)"
  by (simp add: segment_proportions_def Let_def sum_counts_value_counts)

subsection \<open>Float error of the desired counts\<close>

lemma rel_error_mult:
  fixes a b a' b' :: rat
  assumes "\<bar>a' - a\<bar> \<le> e1 * \<bar>a\<bar>" "\<bar>b' - b\<bar> \<le> e2 * \<bar>b\<bar>" "0 \<le> e1" "0 \<le> e2"
  shows "\<bar>a' * b' - a * b\<bar> \<le> (e1 + e2 + e1 * e2) * \<bar>a * b\<bar>"
proof -
  have "a' * b' - a * b = (a' - a) * b + a * (b' - b) + (a' - a) * (b' - b)"
    by (simp add: algebra_simps)
  then have "\<bar>a' * b' - a * b\<bar>
      \<le> \<bar>(a' - a) * b\<bar> + \<bar>a * (b' - b)\<bar> + \<bar>(a' - a) * (b' - b)\<bar>"
    by linarith
  then have "\<bar>a' * b' - a * b\<bar>
      \<le> \<bar>a' - a\<bar> * \<bar>b\<bar> + \<bar>a\<bar> * \<bar>b' - b\<bar> + \<bar>a' - a\<bar> * \<bar>b' - b\<bar>"
    by (simp only: abs_mult)
  moreover have "\<bar>a' - a\<bar> * \<bar>b\<bar> \<le> (e1 * \<bar>a\<bar>) * \<bar>b\<bar>"
    using assms(1) by (intro mult_right_mono) simp_all
  moreover have "\<bar>a\<bar> * \<bar>b' - b\<bar> \<le> \<bar>a\<bar> * (e2 * \<bar>b\<bar>)"
    using assms(2) by (intro mult_left_mono) simp_all
  moreover have "\<bar>a' - a\<bar> * \<bar>b' - b\<bar> \<le> (e1 * \<bar>a\<bar>) * (e2 * \<bar>b\<bar>)"
    using assms by (intro mult_mono) simp_all
  ultimately show ?thesis by (simp add: abs_mult algebra_simps)
qed

lemma rel_error_trans:
  fixes x x' y :: rat
  assumes "\<bar>x' - x\<bar> \<le> e * \<bar>x\<bar>" "\<bar>y - x'\<bar> \<le> u * \<bar>x'\<bar>" "0 \<le> u"
  shows "\<bar>y - x\<bar> \<le> (e + u + e * u) * \<bar>x\<bar>"
proof -
  have "\<bar>x'\<bar> \<le> \<bar>x\<bar> + e * \<bar>x\<bar>"
    using assms(1) by linarith
  then have "u * \<bar>x'\<bar> \<le> u * (\<bar>x\<bar> + e * \<bar>x\<bar>)"
    using assms(3) by (rule mult_left_mono)
  then have "\<bar>y - x\<bar> \<le> u * (\<bar>x\<bar> + e * \<bar>x\<bar>) + e * \<bar>x\<bar>"
    using assms(1,2) by linarith
  then show ?thesis by (simp add: algebra_simps)
qed

lemma rel_error_divide:
  fixes a b a' b' :: rat
  assumes a: "\<bar>a' - a\<bar> \<le> e1 * \<bar>a\<bar>" and b: "\<bar>b' - b\<bar> \<le> e2 * \<bar>b\<bar>"
    and e: "0 \<le> e1" "0 \<le> e2" "e2 < 1" and nz: "b \<noteq> 0"
  shows "\<bar>a' / b' - a / b\<bar> \<le> ((e1 + e2) / (1 - e2)) * \<bar>a / b\<bar>"
proof -
  have lb: "(1 - e2) * \<bar>b\<bar> \<le> \<bar>b'\<bar>"
    using b by (simp add: algebra_simps)
  have pos: "0 < (1 - e2) * \<bar>b\<bar>" using e nz by simp
  then have b'pos: "0 < \<bar>b'\<bar>" using lb by linarith
  then have b'nz: "b' \<noteq> 0" by auto
  have "a' * b - a * b' = (a' - a) * b - a * (b' - b)" by (simp add: algebra_simps)
  then have "\<bar>a' * b - a * b'\<bar> \<le> \<bar>(a' - a) * b\<bar> + \<bar>a * (b' - b)\<bar>"
    by linarith
  then have "\<bar>a' * b - a * b'\<bar> \<le> \<bar>a' - a\<bar> * \<bar>b\<bar> + \<bar>a\<bar> * \<bar>b' - b\<bar>"
    by (simp only: abs_mult)
  moreover have "\<bar>a' - a\<bar> * \<bar>b\<bar> \<le> (e1 * \<bar>a\<bar>) * \<bar>b\<bar>"
    using a by (intro mult_right_mono) simp_all
  moreover have "\<bar>a\<bar> * \<bar>b' - b\<bar> \<le> \<bar>a\<bar> * (e2 * \<bar>b\<bar>)"
    using b by (intro mult_left_mono) simp_all
  ultimately have num: "\<bar>a' * b - a * b'\<bar> \<le> (e1 + e2) * \<bar>a\<bar> * \<bar>b\<bar>"
    by (simp add: algebra_simps)
  have "a' / b' - a / b = (a' * b - a * b') / (b' * b)"
    using nz b'nz by (simp add: field_simps)
  then have "\<bar>a' / b' - a / b\<bar> = \<bar>a' * b - a * b'\<bar> / (\<bar>b'\<bar> * \<bar>b\<bar>)"
    by (simp add: abs_mult)
  also have "\<dots> \<le> ((e1 + e2) * \<bar>a\<bar> * \<bar>b\<bar>) / (\<bar>b'\<bar> * \<bar>b\<bar>)"
    using num b'pos nz by (intro divide_right_mono) simp_all
  also have "\<dots> = ((e1 + e2) * \<bar>a\<bar>) / \<bar>b'\<bar>"
    using nz by simp
  also have "\<dots> \<le> ((e1 + e2) * \<bar>a\<bar>) / ((1 - e2) * \<bar>b\<bar>)"
    using lb pos e by (intro divide_left_mono) (simp_all add: b'pos)
  also have "\<dots> = ((e1 + e2) / (1 - e2)) * \<bar>a / b\<bar>"
    by (simp add: abs_divide)
  finally show ?thesis .
qed


lemma desired_share_error:
  assumes N: "0 < N" and T: "\<bar>T\<bar> \<le> 2 ^ 49"
  shows "\<bar>of_int (desired T (fl64 (fl64 (of_nat c) / fl64 (of_nat N))))
            - of_int T * (of_nat c / of_nat N)\<bar>
         \<le> (1 / 2 + 3 / 8 * (of_nat c / of_nat N) :: rat)"
proof -
  define u :: rat where "u = 1 / 2 ^ 53"
  define eq where "eq = (u + u) / (1 - u)"
  define ep where "ep = eq + u + eq * u"
  define em where "em = u + ep + u * ep"
  define ex where "ex = em + u + em * u"
  have u: "0 \<le> u" "u < 1" by (simp_all add: u_def)
  have fl: "\<bar>fl64 x - x\<bar> \<le> u * \<bar>x\<bar>" for x
    using fl64_error [of x] by (simp add: u_def)
  have nz: "(of_nat N :: rat) \<noteq> 0" using N by simp
  define q :: rat where "q = of_nat c / of_nat N"
  define p where "p = fl64 (fl64 (of_nat c) / fl64 (of_nat N))"
  have q0: "0 \<le> q" by (simp add: q_def)
  have "\<bar>fl64 (of_nat c) / fl64 (of_nat N) - q\<bar> \<le> eq * \<bar>q\<bar>"
    unfolding eq_def q_def by (rule rel_error_divide [OF fl fl u(1) u(1) u(2) nz])
  then have pq: "\<bar>p - q\<bar> \<le> ep * \<bar>q\<bar>"
    unfolding ep_def p_def by (rule rel_error_trans [OF _ fl u(1)])
  have ep0: "0 \<le> ep" by (simp add: ep_def eq_def u_def)
  have "\<bar>fl64 (of_int T) * p - of_int T * q\<bar> \<le> em * \<bar>of_int T * q\<bar>"
    unfolding em_def by (rule rel_error_mult [OF fl pq u(1) ep0])
  then have x: "\<bar>fl64 (fl64 (of_int T) * p) - of_int T * q\<bar> \<le> ex * \<bar>of_int T * q\<bar>"
    unfolding ex_def by (rule rel_error_trans [OF _ fl u(1)])
  have ex: "ex \<le> 6 / 2 ^ 53"
    unfolding ex_def em_def ep_def eq_def u_def by code_simp
  have "\<bar>(of_int T :: rat)\<bar> \<le> 2 ^ 49"
  proof -
    have "(of_int \<bar>T\<bar> :: rat) \<le> of_int (2 ^ 49)" using T by (simp only: of_int_le_iff)
    then show ?thesis by simp
  qed
  then have "\<bar>of_int T * q\<bar> \<le> 2 ^ 49 * q"
    using q0 by (simp add: abs_mult mult_right_mono)
  then have "ex * \<bar>of_int T * q\<bar> \<le> (6 / 2 ^ 53) * (2 ^ 49 * q)"
    using ex q0 by (intro mult_mono) simp_all
  also have "\<dots> = 3 / 8 * q" by simp
  finally have b: "\<bar>fl64 (fl64 (of_int T) * p) - of_int T * q\<bar> \<le> 3 / 8 * q"
    using x by linarith
  have "\<bar>of_int (py_round (fl64 (fl64 (of_int T) * p))) - fl64 (fl64 (of_int T) * p)\<bar> \<le> 1 / 2"
    using py_round_bounds [of "fl64 (fl64 (of_int T) * p)"] by linarith
  with b have "\<bar>of_int (desired T p) - of_int T * q\<bar> \<le> 1 / 2 + 3 / 8 * q"
    unfolding desired_def by linarith
  then show ?thesis by (simp only: p_def q_def)
qed


lemma desired_sum_error:
  assumes N: "0 < N" and T: "\<bar>T\<bar> \<le> 2 ^ 49"
  shows "\<bar>of_int (sum_list (map (\<lambda>sp. desired T (fl64 (fl64 (of_nat (snd sp)) / fl64 (of_nat N)))) ps))
            - of_int T * (of_nat (sum_list (map snd ps)) / of_nat N)\<bar>
         \<le> (of_nat (length ps) / 2 + 3 / 8 * (of_nat (sum_list (map snd ps)) / of_nat N) :: rat)"
proof (induction ps)
  case Nil
  show ?case by simp
next
  case (Cons sp ps)
  define P where "P = (\<lambda>c :: nat. fl64 (fl64 (of_nat c) / fl64 (of_nat N)))"
  define D where "D = sum_list (map (\<lambda>sp. desired T (P (snd sp))) ps)"
  define S where "S = sum_list (map snd ps)"
  have 1: "\<bar>of_int (desired T (P (snd sp))) - of_int T * (of_nat (snd sp) / of_nat N)\<bar>
             \<le> (1 / 2 + 3 / 8 * (of_nat (snd sp) / of_nat N) :: rat)"
    unfolding P_def by (rule desired_share_error [OF N T])
  have 2: "\<bar>of_int D - of_int T * (of_nat S / of_nat N)\<bar>
             \<le> (of_nat (length ps) / 2 + 3 / 8 * (of_nat S / of_nat N) :: rat)"
    using Cons.IH by (simp only: D_def S_def P_def)
  have 3: "(of_int (desired T (P (snd sp)) + D) :: rat)
             - of_int T * (of_nat (snd sp + S) / of_nat N)
           = (of_int (desired T (P (snd sp))) - of_int T * (of_nat (snd sp) / of_nat N))
             + (of_int D - of_int T * (of_nat S / of_nat N))"
    by (simp add: algebra_simps add_divide_distrib)
  have 4: "(of_nat (length (sp # ps)) / 2 + 3 / 8 * (of_nat (snd sp + S) / of_nat N) :: rat)
           = (1 / 2 + 3 / 8 * (of_nat (snd sp) / of_nat N))
             + (of_nat (length ps) / 2 + 3 / 8 * (of_nat S / of_nat N))"
    by (simp add: algebra_simps add_divide_distrib)
  have "\<bar>(of_int (desired T (P (snd sp)) + D) :: rat)
             - of_int T * (of_nat (snd sp + S) / of_nat N)\<bar>
          \<le> of_nat (length (sp # ps)) / 2 + 3 / 8 * (of_nat (snd sp + S) / of_nat N)"
    unfolding 3 4 using 1 2 by linarith
  then show ?case by (simp only: list.map sum_list.Cons D_def S_def P_def)
qed


lemma py_round_of_int: "py_round (of_int n) = n"
  by (simp add: py_round_def)

text \<open>
  C6 (as amended). For a group with an integer target \<open>T\<close> of absolute value at most
  \<open>2\<^sup>4\<^sup>9\<close> and a non-empty segmented population with \<open>n\<close> segments, the desired counts
  \<open>round (T * share)\<close> of the segments, computed in floats before any shortfall adjustment,
  add up to a number that differs from \<open>round T\<close> by at most \<open>n - 1\<close>.
\<close>

theorem desired_sum_close_to_target:
  assumes "df \<noteq> []" and "\<bar>T\<bar> \<le> 2 ^ 49"
  shows "\<bar>sum_list (map (\<lambda>(s, p). desired T p) (segment_proportions (map seg df)))
             - py_round (of_int T)\<bar>
           \<le> int (length (segment_proportions (map seg df))) - 1"
proof -
  define xs where "xs = map seg df"
  define N where "N = length xs"
  define vc where "vc = value_counts xs"
  define D where "D = sum_list (map (\<lambda>(s, p). desired T p) (segment_proportions xs))"
  have N: "0 < N" using assms(1) by (simp add: N_def xs_def)
  have S: "sum_list (map snd vc) = N"
    by (simp add: vc_def N_def sum_counts_value_counts)
  have len: "length (segment_proportions xs) = length vc"
    by (simp add: segment_proportions_eq vc_def)
  have "vc \<noteq> []" using S N by auto
  then have n: "1 \<le> int (length vc)" by (cases vc) simp_all
  have "map (\<lambda>(s, p). desired T p) (segment_proportions xs)
          = map (\<lambda>sp. desired T (fl64 (fl64 (of_nat (snd sp)) / fl64 (of_nat N)))) vc"
    by (simp add: segment_proportions_eq vc_def N_def case_prod_beta comp_def)
  then have "\<bar>of_int D - of_int T * (of_nat (sum_list (map snd vc)) / of_nat N)\<bar>
         \<le> (of_nat (length vc) / 2 + 3 / 8 * (of_nat (sum_list (map snd vc)) / of_nat N) :: rat)"
    unfolding D_def using desired_sum_error [OF N assms(2), of vc] by simp
  then have "\<bar>(of_int D :: rat) - of_int T\<bar> \<le> of_nat (length vc) / 2 + 3 / 8"
    using N by (simp add: S)
  then have "(of_int (2 * \<bar>D - T\<bar>) :: rat) < of_int (int (length vc) + 1)"
    by simp
  then have "2 * \<bar>D - T\<bar> < int (length vc) + 1"
    by (simp only: of_int_less_iff)
  with n have "\<bar>D - T\<bar> \<le> int (length vc) - 1" by arith
  then have "\<bar>D - T\<bar> \<le> int (length (segment_proportions xs)) - 1"
    by (simp only: len)
  then show ?thesis
    by (simp only: D_def xs_def py_round_of_int)
qed

theorem desired_sum_close_to_target_witness:
  "[(''F1_R1'', 1 :: nat), (''F1_R2'', 2), (''F2_R1'', 3)] \<noteq> []
   \<and> \<bar>2 :: int\<bar> \<le> 2 ^ 49
   \<and> \<bar>sum_list (map (\<lambda>(s, p). desired 2 p)
          (segment_proportions (map fst [(''F1_R1'', 1 :: nat), (''F1_R2'', 2), (''F2_R1'', 3)])))
        - py_round (of_int 2)\<bar>
      \<le> int (length (segment_proportions
                 (map fst [(''F1_R1'', 1 :: nat), (''F1_R2'', 2), (''F2_R1'', 3)]))) - 1"
proof -
  have ne: "[(''F1_R1'', 1 :: nat), (''F1_R2'', 2), (''F2_R1'', 3)] \<noteq> []" by simp
  have t: "\<bar>2 :: int\<bar> \<le> 2 ^ 49" by simp
  show ?thesis
    using ne t desired_sum_close_to_target [OF ne t, of fst] by blast
qed

text \<open>
  The bound fails for a target that is not a float, and for an empty population. One
  customer in one segment and the target \<open>2\<^sup>5\<^sup>3 + 1\<close>: the share is 1, the target
  becomes the float \<open>2\<^sup>5\<^sup>3\<close>, and the desired count differs from the target by 1,
  where \<open>n - 1 = 0\<close>. No customer and the target 1: the sum over no segments is 0 and
  \<open>n - 1 = -1\<close>.
\<close>

theorem desired_sum_far_from_target:
  "sum_list (map (\<lambda>(s, p). desired (2 ^ 53 + 1) p)
       (segment_proportions (map fst [(''F1_R1'', 1 :: nat)]))) = 2 ^ 53
   \<and> py_round (of_int (2 ^ 53 + 1)) = 2 ^ 53 + 1
   \<and> int (length (segment_proportions (map fst [(''F1_R1'', 1 :: nat)]))) - 1 = 0
   \<and> \<not> \<bar>sum_list (map (\<lambda>(s, p). desired (2 ^ 53 + 1) p)
            (segment_proportions (map fst [(''F1_R1'', 1 :: nat)])))
          - py_round (of_int (2 ^ 53 + 1))\<bar>
        \<le> int (length (segment_proportions (map fst [(''F1_R1'', 1 :: nat)]))) - 1
   \<and> \<not> \<bar>sum_list (map (\<lambda>(s, p). desired 1 p)
            (segment_proportions (map fst ([] :: (string \<times> nat) list))))
          - py_round (of_int 1)\<bar>
        \<le> int (length (segment_proportions (map fst ([] :: (string \<times> nat) list)))) - 1"
  by code_simp

subsection \<open>Dependence on the order of the rows\<close>

lemma count_list_map_seg:
  "count_list (map seg df) s = length (filter (\<lambda>r. seg r = s) df)"
  by (induction df) simp_all

lemma set_segment_proportions:
  "set (segment_proportions xs)
     = (\<lambda>s. (s, fl64 (fl64 (of_nat (count_list xs s)) / fl64 (of_nat (length xs))))) ` set xs"
  by (auto simp: segment_proportions_eq value_counts_def image_iff)

lemma same_segments_same_proportions:
  assumes "\<forall>s. filter (\<lambda>r. seg r = s) df = filter (\<lambda>r. seg r = s) df'"
  shows "set (segment_proportions (map seg df)) = set (segment_proportions (map seg df'))"
proof -
  have c: "count_list (map seg df) s = count_list (map seg df') s" for s
    using assms by (simp add: count_list_map_seg)
  have "s \<in> set (map seg df) \<longleftrightarrow> s \<in> set (map seg df')" for s
    using c [of s] count_list_0_iff [of "map seg df" s] count_list_0_iff [of "map seg df'" s]
    by simp
  then have st: "set (map seg df) = set (map seg df')" by blast
  have "length (map seg df) = sum (count_list (map seg df)) (set (map seg df))"
    by (simp add: sum_count_set)
  also have "\<dots> = sum (count_list (map seg df')) (set (map seg df'))"
    unfolding st using c by simp
  also have "\<dots> = length (map seg df')"
    by (simp add: sum_count_set)
  finally have "length (map seg df) = length (map seg df')" .
  then show ?thesis
    unfolding set_segment_proportions st using c by simp
qed

text \<open>
  C4 (as amended). Two runs with the same seed and target sizes, on inputs that hold the
  same rows in the same order within every segment, put every row into the same group;
  how the rows of different segments are interleaved does not matter.
\<close>

theorem assignment_depends_on_order_within_segments:
  assumes "\<forall>s. filter (\<lambda>r. seg r = s) df = filter (\<lambda>r. seg r = s) df'"
  shows "set (stratified_sample perm seg df sizes seed)
           = set (stratified_sample perm seg df' sizes seed)"
proof -
  define ss where "ss = (case sizes of None \<Rightarrow> DEFAULT_SAMPLE_SIZES | Some s \<Rightarrow> s)"
  define part where
    "part = (\<lambda>d sp. sample_segment perm seed ss (snd sp) (filter (\<lambda>r. seg r = fst sp) d))"
  have groups: "sample_groups perm seg d sizes seed =
      (concat (map (\<lambda>sp. fst (part d sp)) (segment_proportions (map seg d))),
       concat (map (\<lambda>sp. fst (snd (part d sp))) (segment_proportions (map seg d))),
       concat (map (\<lambda>sp. snd (snd (part d sp))) (segment_proportions (map seg d))))" for d
    by (simp add: sample_groups_def Let_def ss_def [symmetric] sample_loop_concat part_def)
  have p: "part df = part df'"
    using assms by (simp add: part_def fun_eq_iff)
  have s: "set (segment_proportions (map seg df)) = set (segment_proportions (map seg df'))"
    using assms by (rule same_segments_same_proportions)
  show ?thesis
    by (simp add: stratified_sample_def groups p s image_Un image_UN)
qed

lemma length_two:
  assumes "length l = 2"
  shows "\<exists>a b. l = [a, b]"
proof -
  obtain a l' where 1: "l = a # l'" using assms by (cases l) auto
  then have "length l' = 1" using assms by simp
  then obtain b l'' where 2: "l' = b # l''" by (cases l') auto
  then have "l'' = []" using \<open>length l' = 1\<close> by simp
  with 1 2 show ?thesis by simp
qed

lemma upt_two: "[0..<2] = [0, Suc 0]"
  by (simp add: numeral_2_eq_2)


lemma perm_of_two:
  assumes "mset l = mset [0..<2]"
  shows "l = [0, 1] \<or> l = [1, 0]"
proof -
  have m: "mset l = mset [0, Suc 0]" using assms unfolding upt_two .
  have "length l = length [0, Suc 0]" using m by (rule mset_eq_length)
  then have "length l = 2" by simp
  then obtain a b where l: "l = [a, b]" using length_two by blast
  have "set l = set [0, Suc 0]" using m by (rule mset_eq_setD)
  moreover have "distinct l \<longleftrightarrow> distinct [0, Suc 0]" using m by (rule mset_eq_imp_distinct_iff)
  ultimately show ?thesis unfolding l by (auto simp: doubleton_eq_iff)
qed


lemma two_rows_proportions: "segment_proportions [''F1_R1'', ''F1_R1''] = [(''F1_R1'', 1)]"
  by code_simp

lemma two_rows_allocate: "allocate \<lparr>Test = 1, Control = 1, Holdout = 1\<rparr> 1 2 = (1, 1, 0)"
  by code_simp

lemma two_rows_sample:
  assumes "length (perm 42 2) = 2"
  shows "stratified_sample perm fst [(''F1_R1'', a), (''F1_R1'', b)]
           (Some \<lparr>Test = 1, Control = 1, Holdout = 1\<rparr>) 42
         = [([(''F1_R1'', a), (''F1_R1'', b)] ! (perm 42 2 ! 0), ''Test''),
            ([(''F1_R1'', a), (''F1_R1'', b)] ! (perm 42 2 ! 1), ''Control'')]"
proof -
  obtain i j where p: "perm 42 2 = [i, j]"
    using assms length_two by blast
  have sh: "shuffle perm 42 [(''F1_R1'', a), (''F1_R1'', b)]
              = [[(''F1_R1'', a), (''F1_R1'', b)] ! i, [(''F1_R1'', a), (''F1_R1'', b)] ! j]"
    using p by (simp add: shuffle_def numeral_2_eq_2)
  have sg: "sample_segment perm 42 \<lparr>Test = 1, Control = 1, Holdout = 1\<rparr> 1
               [(''F1_R1'', a), (''F1_R1'', b)]
              = ([[(''F1_R1'', a), (''F1_R1'', b)] ! i],
                 [[(''F1_R1'', a), (''F1_R1'', b)] ! j], [])"
    unfolding sample_segment_def Let_def sh
    by (simp add: two_rows_allocate [unfolded numeral_2_eq_2] iloc_def slice_index_def)
  show ?thesis
    by (simp add: stratified_sample_def sample_groups_def two_rows_proportions sg p)
qed

text \<open>
  The same two rows of one segment in the two possible orders: whatever permutation the
  generator draws for the seed, the row that is first in the Test group differs between
  the two runs.
\<close>

theorem assignment_depends_on_row_order:
  "\<not> (\<exists>perm. valid_perm perm
        \<and> set (stratified_sample perm fst [(''F1_R1'', 1 :: nat), (''F1_R1'', 2)]
                 (Some \<lparr>Test = 1, Control = 1, Holdout = 1\<rparr>) 42)
          = set (stratified_sample perm fst [(''F1_R1'', 2 :: nat), (''F1_R1'', 1)]
                 (Some \<lparr>Test = 1, Control = 1, Holdout = 1\<rparr>) 42))"
proof
  assume "\<exists>perm. valid_perm perm
        \<and> set (stratified_sample perm fst [(''F1_R1'', 1 :: nat), (''F1_R1'', 2)]
                 (Some \<lparr>Test = 1, Control = 1, Holdout = 1\<rparr>) 42)
          = set (stratified_sample perm fst [(''F1_R1'', 2 :: nat), (''F1_R1'', 1)]
                 (Some \<lparr>Test = 1, Control = 1, Holdout = 1\<rparr>) 42)"
  then obtain perm where v: "valid_perm perm"
    and e: "set (stratified_sample perm fst [(''F1_R1'', 1 :: nat), (''F1_R1'', 2)]
                 (Some \<lparr>Test = 1, Control = 1, Holdout = 1\<rparr>) 42)
          = set (stratified_sample perm fst [(''F1_R1'', 2 :: nat), (''F1_R1'', 1)]
                 (Some \<lparr>Test = 1, Control = 1, Holdout = 1\<rparr>) 42)"
    by blast
  from v have m: "mset (perm 42 2) = mset [0..<2]" by (simp add: valid_perm_def)
  have "length (perm 42 2) = length [0..<2]" using m by (rule mset_eq_length)
  then have len: "length (perm 42 2) = 2" by simp
  from perm_of_two [OF m] show False
  proof
    assume "perm 42 2 = [0, 1]"
    with e show False by (simp add: two_rows_sample [of perm, OF len] doubleton_eq_iff)
  next
    assume "perm 42 2 = [1, 0]"
    with e show False by (simp add: two_rows_sample [of perm, OF len] doubleton_eq_iff)
  qed
qed

theorem assignment_depends_on_order_within_segments_witness:
  "(\<forall>s. filter (\<lambda>r. fst r = s) [(''F1_R1'', 1 :: nat), (''F2_R1'', 2), (''F1_R1'', 3)]
        = filter (\<lambda>r. fst r = s) [(''F2_R1'', 2), (''F1_R1'', 1), (''F1_R1'', 3)])
   \<and> set (stratified_sample rotation_perm fst
             [(''F1_R1'', 1 :: nat), (''F2_R1'', 2), (''F1_R1'', 3)]
             (Some \<lparr>Test = 1, Control = 1, Holdout = 1\<rparr>) 42)
     = set (stratified_sample rotation_perm fst
             [(''F2_R1'', 2), (''F1_R1'', 1), (''F1_R1'', 3)]
             (Some \<lparr>Test = 1, Control = 1, Holdout = 1\<rparr>) 42)"
proof -
  have h: "\<forall>s. filter (\<lambda>r. fst r = s) [(''F1_R1'', 1 :: nat), (''F2_R1'', 2), (''F1_R1'', 3)]
        = filter (\<lambda>r. fst r = s) [(''F2_R1'', 2), (''F1_R1'', 1), (''F1_R1'', 3)]"
    by simp
  show ?thesis
    using h assignment_depends_on_order_within_segments [OF h, of rotation_perm
        "Some \<lparr>Test = 1, Control = 1, Holdout = 1\<rparr>" 42]
    by blast
qed

subsection \<open>Negative targets\<close>

lemma two_rows_negative_allocate:
  "allocate \<lparr>Test = - 1, Control = 1, Holdout = 1\<rparr> 1 2 = (- 1, 1, 1)"
  by code_simp

lemma two_rows_negative_sample:
  assumes "length (perm 42 2) = 2"
  shows "sample_groups perm fst [(''F1_R1'', a), (''F1_R1'', b)]
           (Some \<lparr>Test = - 1, Control = 1, Holdout = 1\<rparr>) 42
         = ([[(''F1_R1'', a), (''F1_R1'', b)] ! (perm 42 2 ! 0)], [],
            [[(''F1_R1'', a), (''F1_R1'', b)] ! (perm 42 2 ! 0)])"
proof -
  obtain i j where p: "perm 42 2 = [i, j]"
    using assms length_two by blast
  have sh: "shuffle perm 42 [(''F1_R1'', a), (''F1_R1'', b)]
              = [[(''F1_R1'', a), (''F1_R1'', b)] ! i, [(''F1_R1'', a), (''F1_R1'', b)] ! j]"
    using p by (simp add: shuffle_def numeral_2_eq_2)
  have sg: "sample_segment perm 42 \<lparr>Test = - 1, Control = 1, Holdout = 1\<rparr> 1
               [(''F1_R1'', a), (''F1_R1'', b)]
              = ([[(''F1_R1'', a), (''F1_R1'', b)] ! i], [],
                 [[(''F1_R1'', a), (''F1_R1'', b)] ! i])"
    unfolding sample_segment_def Let_def sh
    by (simp add: two_rows_negative_allocate [unfolded numeral_2_eq_2] iloc_def slice_index_def)
  show ?thesis
    by (simp add: sample_groups_def two_rows_proportions sg p)
qed

text \<open>
  A negative target: two customers of one segment with Test = -1, Control = 1 and
  Holdout = 1. The counts are -1, 1 and 1; the Test slice \<^verbatim>\<open>iloc[:-1]\<close> and the Holdout
  slice \<^verbatim>\<open>iloc[0:1]\<close> both hold the first shuffled row, whatever permutation the
  generator draws.
\<close>

theorem groups_overlap_for_negative_target:
  "\<not> (\<exists>perm. valid_perm perm
        \<and> (case sample_groups perm fst [(''F1_R1'', 1 :: nat), (''F1_R1'', 2)]
                   (Some \<lparr>Test = - 1, Control = 1, Holdout = 1\<rparr>) 42 of
              (test_group, control_group, holdout_group) \<Rightarrow>
                set test_group \<inter> set control_group = {}
              \<and> set test_group \<inter> set holdout_group = {}
              \<and> set control_group \<inter> set holdout_group = {}))"
proof
  assume "\<exists>perm. valid_perm perm
        \<and> (case sample_groups perm fst [(''F1_R1'', 1 :: nat), (''F1_R1'', 2)]
                   (Some \<lparr>Test = - 1, Control = 1, Holdout = 1\<rparr>) 42 of
              (test_group, control_group, holdout_group) \<Rightarrow>
                set test_group \<inter> set control_group = {}
              \<and> set test_group \<inter> set holdout_group = {}
              \<and> set control_group \<inter> set holdout_group = {})"
  then obtain perm where v: "valid_perm perm"
    and d: "case sample_groups perm fst [(''F1_R1'', 1 :: nat), (''F1_R1'', 2)]
                   (Some \<lparr>Test = - 1, Control = 1, Holdout = 1\<rparr>) 42 of
              (test_group, control_group, holdout_group) \<Rightarrow>
                set test_group \<inter> set control_group = {}
              \<and> set test_group \<inter> set holdout_group = {}
              \<and> set control_group \<inter> set holdout_group = {}"
    by (elim exE conjE)
  from v have m: "mset (perm 42 2) = mset [0..<2]" by (simp add: valid_perm_def)
  have "length (perm 42 2) = length [0..<2]" using m by (rule mset_eq_length)
  then have len: "length (perm 42 2) = 2" by simp
  from d show False
    by (simp add: two_rows_negative_sample [of perm, OF len])
qed

section \<open>Properties of the segmenter\<close>

subsection \<open>Accepted and rejected edge lists\<close>

lemma length_bin_labels: "length (bin_labels prefix bins) = length bins - 1"
  by (simp add: bin_labels_def)


lemma or_default_nonempty: "bs \<noteq> [] \<Longrightarrow> or_default (Some bs) d = bs"
  by (simp add: or_default_def)


lemma pd_cut_accepts:
  assumes "monotonic_increasing bins" "distinct bins \<or> length bins = 2"
  shows "pd_cut xs bins (bin_labels prefix bins) =
           Inr (map (\<lambda>v. map_option (\<lambda>ids. bin_labels prefix bins ! (ids - 1)) (bucket_id bins v)) xs)"
  using assms by (auto simp: pd_cut_def length_bin_labels)



lemma monotonic_increasing_nth:
  "monotonic_increasing bins \<Longrightarrow> Suc i < length bins \<Longrightarrow> edge_le (bins ! i) (bins ! Suc i)"
proof (induction bins arbitrary: i rule: monotonic_increasing.induct)
  case (1 a b es)
  then show ?case by (cases i) simp_all
qed simp_all

lemma edge_le_antisym: "edge_le a b \<Longrightarrow> edge_le b a \<Longrightarrow> a = b"
  by (cases a; cases b) simp_all

lemma pd_cut_rejects:
  assumes "Suc i < length bins" "edge_le (bins ! Suc i) (bins ! i)" "\<not> (\<exists>a. bins = [a, a])"
  shows "\<exists>msg. pd_cut xs bins labels = Inl (ValueError msg)"
proof (cases "monotonic_increasing bins")
  case False
  then show ?thesis by (simp add: pd_cut_def)
next
  case True
  then have "edge_le (bins ! i) (bins ! Suc i)"
    using assms(1) by (rule monotonic_increasing_nth)
  then have eq: "bins ! i = bins ! Suc i"
    using assms(2) by (rule edge_le_antisym)
  have nd: "\<not> distinct bins"
  proof
    assume "distinct bins"
    moreover have "i < length bins" "i \<noteq> Suc i" using assms(1) by simp_all
    ultimately have "bins ! i \<noteq> bins ! Suc i"
      using assms(1) by (simp add: nth_eq_iff_index_eq)
    with eq show False by simp
  qed
  have "length bins \<noteq> 2"
  proof
    assume "length bins = 2"
    then obtain a b where ab: "bins = [a, b]"
      by (auto simp: numeral_2_eq_2 length_Suc_conv)
    with assms(1) have "i = 0" by simp
    with eq ab have "a = b" by simp
    with ab assms(3) show False by simp
  qed
  with True nd show ?thesis by (simp add: pd_cut_def)
qed

lemma error_is_ValueError: "\<exists>msg. e = ValueError msg"
  by (cases e) simp

text \<open>
  C5 (as amended). An edge list with at least two edges that fails to increase at some
  position, other than a pair of two equal edges, given for either dimension, makes the
  segmenter fail with a \<^verbatim>\<open>ValueError\<close> (raised by \<^verbatim>\<open>pandas.cut\<close>) instead of producing
  a segmented table.
\<close>

theorem non_increasing_bins_rejected:
  assumes "Suc i < length bins" and "edge_le (bins ! Suc i) (bins ! i)"
    and "\<not> (\<exists>a. bins = [a, a])"
  shows "(\<exists>msg. bin_customers df (Some bins) frequency_bins = Inl (ValueError msg))
       \<and> (\<exists>msg. bin_customers df recency_bins (Some bins) = Inl (ValueError msg))"
proof
  have ne: "bins \<noteq> []" using assms(1) by auto
  obtain msg where r: "pd_cut (map recency df) bins (bin_labels ''R'' bins) = Inl (ValueError msg)"
    using pd_cut_rejects [OF assms] by blast
  show "\<exists>msg. bin_customers df (Some bins) frequency_bins = Inl (ValueError msg)"
    by (simp add: bin_customers_def Let_def or_default_nonempty [OF ne] r)
  obtain msg' where f: "pd_cut (map frequency df) bins (bin_labels ''F'' bins) = Inl (ValueError msg')"
    using pd_cut_rejects [OF assms] by blast
  show "\<exists>msg. bin_customers df recency_bins (Some bins) = Inl (ValueError msg)"
    using error_is_ValueError
    by (auto simp: bin_customers_def Let_def or_default_nonempty [OF ne] f split: sum.splits)
qed

theorem non_increasing_bins_rejected_witness:
  "Suc 1 < length [Edge 0, Edge 2, Edge 1] \<and> edge_le ([Edge 0, Edge 2, Edge 1] ! Suc 1) ([Edge 0, Edge 2, Edge 1] ! 1)
   \<and> \<not> (\<exists>a. [Edge 0, Edge 2, Edge 1] = [a, a])
   \<and> (\<exists>msg. bin_customers [] (Some [Edge 0, Edge 2, Edge 1]) None = Inl (ValueError msg))
   \<and> (\<exists>msg. bin_customers [] None (Some [Edge 0, Edge 2, Edge 1]) = Inl (ValueError msg))"
proof -
  have 1: "Suc 1 < length [Edge 0, Edge 2, Edge 1]" by simp
  have 2: "edge_le ([Edge 0, Edge 2, Edge 1] ! Suc 1) ([Edge 0, Edge 2, Edge 1] ! 1)" by simp
  have 3: "\<not> (\<exists>a. [Edge 0, Edge 2, Edge 1] = [a, a])" by simp
  show ?thesis
    using 1 2 3 non_increasing_bins_rejected [OF 1 2 3, of "[]" None None] by blast
qed

text \<open>
  Edge lists with fewer than two edges are not rejected: an empty list is replaced by
  the defaults and the customer is segmented; a single edge gives a table without rows.
\<close>

theorem short_bins_not_rejected:
  "bin_customers
     [\<lparr>customer_id = ''c1'', recency = 3, frequency = 2, Recency_Bucket = None,
        Frequency_Bucket = None, Segment = None\<rparr>] (Some []) (Some [])
     = Inr [\<lparr>customer_id = ''c1'', recency = 3, frequency = 2, Recency_Bucket = Some ''R4'',
        Frequency_Bucket = Some ''F2'', Segment = Some ''F2_R4''\<rparr>]
   \<and> bin_customers
     [\<lparr>customer_id = ''c1'', recency = 3, frequency = 2, Recency_Bucket = None,
        Frequency_Bucket = None, Segment = None\<rparr>] (Some [Edge 5]) (Some [Edge 1])
     = Inr []"
  by code_simp

subsection \<open>The bucket of a value\<close>

lemma strictly_increasing_monotonic:
  "sorted_wrt edge_less bins \<Longrightarrow> monotonic_increasing bins"
  by (induction bins rule: monotonic_increasing.induct) (auto simp: edge_less_def)

lemma strictly_increasing_distinct: "sorted_wrt edge_less bins \<Longrightarrow> distinct bins"
  by (induction bins) (auto simp: edge_less_def)

lemma edge_le_val_mono: "edge_le a b \<Longrightarrow> edge_le_val b v \<Longrightarrow> edge_le_val a v"
  by (cases a; cases b) simp_all

lemma strictly_increasing_nth_le:
  assumes "sorted_wrt edge_less bins" "j \<le> i" "i < length bins"
  shows "edge_le (bins ! j) (bins ! i)"
proof (cases "j = i")
  case True
  then show ?thesis by (cases "bins ! i") simp_all
next
  case False
  then have "edge_less (bins ! j) (bins ! i)"
    using assms by (intro sorted_wrt_nth_less [of edge_less bins j i]) simp_all
  then show ?thesis by (simp add: edge_less_def)
qed

lemma takeWhile_nth_holds:
  assumes "j < length (takeWhile P xs)"
  shows "P (xs ! j)"
proof -
  have "takeWhile P xs ! j \<in> set (takeWhile P xs)" using assms by (rule nth_mem)
  then have "P (takeWhile P xs ! j)" using set_takeWhileD by fast
  then show ?thesis using assms by (simp add: takeWhile_nth)
qed

lemma bucket_id_iff:
  assumes "sorted_wrt edge_less bins"
  shows "bucket_id bins v = Some i \<longleftrightarrow>
           1 \<le> i \<and> i < length bins \<and> edge_le_val (bins ! (i - 1)) v \<and> \<not> edge_le_val (bins ! i) v"
proof
  define k where "k = length (takeWhile (\<lambda>e. edge_le_val e v) bins)"
  assume "bucket_id bins v = Some i"
  then have ik: "i = k" and k0: "k \<noteq> 0" and kl: "k \<noteq> length bins"
    by (auto simp: bucket_id_def searchsorted_right_def Let_def k_def split: if_splits)
  have "k \<le> length bins" unfolding k_def by (rule length_takeWhile_le)
  with kl have lt: "k < length bins" by simp
  then have notP: "\<not> edge_le_val (bins ! k) v"
    unfolding k_def by (rule nth_length_takeWhile)
  have "k - 1 < k" using k0 by simp
  then have "edge_le_val (bins ! (k - 1)) v"
    unfolding k_def by (rule takeWhile_nth_holds)
  with ik k0 lt notP
  show "1 \<le> i \<and> i < length bins \<and> edge_le_val (bins ! (i - 1)) v \<and> \<not> edge_le_val (bins ! i) v"
    by simp
next
  define k where "k = length (takeWhile (\<lambda>e. edge_le_val e v) bins)"
  assume a: "1 \<le> i \<and> i < length bins \<and> edge_le_val (bins ! (i - 1)) v \<and> \<not> edge_le_val (bins ! i) v"
  have "edge_le_val (bins ! j) v" if "j < i" for j
  proof -
    have "j \<le> i - 1" "i - 1 < length bins" using that a by auto
    with assms have "edge_le (bins ! j) (bins ! (i - 1))"
      by (rule strictly_increasing_nth_le)
    then show ?thesis using a edge_le_val_mono by blast
  qed
  then have ge: "i \<le> k"
    unfolding k_def using a by (intro length_takeWhile_less_P_nth) simp_all
  have "\<not> i < k"
  proof
    assume "i < k"
    then have "edge_le_val (bins ! i) v"
      unfolding k_def by (rule takeWhile_nth_holds)
    with a show False by simp
  qed
  with ge have "k = i" by simp
  then show "bucket_id bins v = Some i"
    using a by (auto simp: bucket_id_def searchsorted_right_def Let_def k_def)
qed

lemma bucket_id_none:
  assumes "sorted_wrt edge_less bins" "bins \<noteq> []"
    and "\<not> edge_le_val (hd bins) v \<or> edge_le_val (last bins) v"
  shows "bucket_id bins v = None"
proof (rule ccontr)
  assume "bucket_id bins v \<noteq> None"
  then obtain i where "bucket_id bins v = Some i" by auto
  then have i: "1 \<le> i" "i < length bins" "edge_le_val (bins ! (i - 1)) v" "\<not> edge_le_val (bins ! i) v"
    using bucket_id_iff [OF assms(1)] by simp_all
  have "0 \<le> i - 1" "i - 1 < length bins" using i by simp_all
  with assms(1) have "edge_le (bins ! 0) (bins ! (i - 1))"
    by (rule strictly_increasing_nth_le)
  then have "edge_le_val (hd bins) v"
    using i(3) assms(2) edge_le_val_mono by (auto simp: hd_conv_nth)
  moreover have "i \<le> length bins - 1" "length bins - 1 < length bins" using i by simp_all
  with assms(1) have "edge_le (bins ! i) (bins ! (length bins - 1))"
    by (rule strictly_increasing_nth_le)
  then have "\<not> edge_le_val (last bins) v"
    using i(4) assms(2) edge_le_val_mono by (auto simp: last_conv_nth)
  ultimately show False using assms(3) by simp
qed

lemma bin_labels_nth:
  assumes "1 \<le> i" "i < length bins"
  shows "bin_labels prefix bins ! (i - 1) = prefix @ str_nat i"
proof -
  have "i - 1 < length [1..<length bins]" using assms by simp
  then have "map (\<lambda>i. prefix @ str_nat i) [1..<length bins] ! (i - 1)
               = prefix @ str_nat ([1..<length bins] ! (i - 1))"
    by (rule nth_map)
  moreover have "[1..<length bins] ! (i - 1) = i" using assms by simp
  ultimately show ?thesis by (simp add: bin_labels_def)
qed

lemma bucket_label:
  assumes "sorted_wrt edge_less bins"
  shows "map_option (\<lambda>ids. bin_labels prefix bins ! (ids - 1)) (bucket_id bins v)
           = map_option (\<lambda>i. prefix @ str_nat i) (bucket_id bins v)"
proof (cases "bucket_id bins v")
  case None
  then show ?thesis by simp
next
  case (Some i)
  then have "1 \<le> i" "i < length bins" using bucket_id_iff [OF assms] by simp_all
  then have "bin_labels prefix bins ! (i - 1) = prefix @ str_nat i" by (rule bin_labels_nth)
  then show ?thesis using Some by simp
qed

lemma assign_buckets_map:
  "assign_buckets df (map (\<lambda>c. f (recency c)) df) (map (\<lambda>c. g (frequency c)) df)
     = map (\<lambda>c. c\<lparr>Recency_Bucket := f (recency c), Frequency_Bucket := g (frequency c)\<rparr>) df"
  unfolding assign_buckets_def by (induction df) simp_all

lemma bin_customers_strictly_increasing:
  assumes "sorted_wrt edge_less rbins" "rbins \<noteq> []" "sorted_wrt edge_less fbins" "fbins \<noteq> []"
  shows "bin_customers df (Some rbins) (Some fbins) =
     Inr (assign_segment (dropna_buckets
       (map (\<lambda>c. c\<lparr>Recency_Bucket := map_option (\<lambda>i. ''R'' @ str_nat i) (bucket_id rbins (recency c)),
                    Frequency_Bucket := map_option (\<lambda>i. ''F'' @ str_nat i) (bucket_id fbins (frequency c))\<rparr>)
          df)))"
proof -
  have r: "pd_cut (map recency df) rbins (bin_labels ''R'' rbins)
             = Inr (map (\<lambda>c. map_option (\<lambda>i. ''R'' @ str_nat i) (bucket_id rbins (recency c))) df)"
    using assms(1) bucket_label [OF assms(1), of "''R''"]
    by (simp add: pd_cut_accepts strictly_increasing_monotonic strictly_increasing_distinct
        comp_def)
  have f: "pd_cut (map frequency df) fbins (bin_labels ''F'' fbins)
             = Inr (map (\<lambda>c. map_option (\<lambda>i. ''F'' @ str_nat i) (bucket_id fbins (frequency c))) df)"
    using assms(3) bucket_label [OF assms(3), of "''F''"]
    by (simp add: pd_cut_accepts strictly_increasing_monotonic strictly_increasing_distinct
        comp_def)
  show ?thesis
    unfolding bin_customers_def Let_def or_default_nonempty [OF assms(2)]
      or_default_nonempty [OF assms(4)] r f
    using assign_buckets_map [where f = "\<lambda>v. map_option (\<lambda>i. ''R'' @ str_nat i) (bucket_id rbins v)"
        and g = "\<lambda>v. map_option (\<lambda>i. ''F'' @ str_nat i) (bucket_id fbins v)" and df = df]
    by simp
qed

text \<open>
  C3. For strictly increasing edge lists, a value is in bucket \<open>i\<close> exactly when
  \<open>edges[i-1] \<le> v < edges[i]\<close>; so a value has at most one bucket, and a value below
  the first edge or not below the last edge has none. The segmented table holds exactly
  the customers that have a bucket in both dimensions, each with the labels of its two
  buckets.
\<close>

theorem bucket_rule:
  assumes "sorted_wrt edge_less rbins" and "rbins \<noteq> []"
    and "sorted_wrt edge_less fbins" and "fbins \<noteq> []"
  shows "(\<forall>bins \<in> {rbins, fbins}. \<forall>v.
            (\<forall>i. bucket_id bins v = Some i \<longleftrightarrow>
                   1 \<le> i \<and> i < length bins
                   \<and> edge_le_val (bins ! (i - 1)) v \<and> \<not> edge_le_val (bins ! i) v)
          \<and> (\<forall>i j. 1 \<le> i \<and> i < length bins
                       \<and> edge_le_val (bins ! (i - 1)) v \<and> \<not> edge_le_val (bins ! i) v
                     \<and> 1 \<le> j \<and> j < length bins
                       \<and> edge_le_val (bins ! (j - 1)) v \<and> \<not> edge_le_val (bins ! j) v
                     \<longrightarrow> i = j)
          \<and> (\<not> edge_le_val (hd bins) v \<or> edge_le_val (last bins) v \<longrightarrow> bucket_id bins v = None))
       \<and> (\<exists>out. bin_customers df (Some rbins) (Some fbins) = Inr out
            \<and> map (\<lambda>r. (customer_id r, recency r, frequency r)) out
                = map (\<lambda>c. (customer_id c, recency c, frequency c))
                    (filter (\<lambda>c. bucket_id rbins (recency c) \<noteq> None
                               \<and> bucket_id fbins (frequency c) \<noteq> None) df)
            \<and> (\<forall>r \<in> set out.
                   Recency_Bucket r
                     = map_option (\<lambda>i. ''R'' @ str_nat i) (bucket_id rbins (recency r))
                 \<and> Frequency_Bucket r
                     = map_option (\<lambda>i. ''F'' @ str_nat i) (bucket_id fbins (frequency r))))"
proof (intro conjI)
  have one: "(\<forall>i. bucket_id bins v = Some i \<longleftrightarrow>
                   1 \<le> i \<and> i < length bins
                   \<and> edge_le_val (bins ! (i - 1)) v \<and> \<not> edge_le_val (bins ! i) v)
          \<and> (\<forall>i j. 1 \<le> i \<and> i < length bins
                       \<and> edge_le_val (bins ! (i - 1)) v \<and> \<not> edge_le_val (bins ! i) v
                     \<and> 1 \<le> j \<and> j < length bins
                       \<and> edge_le_val (bins ! (j - 1)) v \<and> \<not> edge_le_val (bins ! j) v
                     \<longrightarrow> i = j)
          \<and> (\<not> edge_le_val (hd bins) v \<or> edge_le_val (last bins) v \<longrightarrow> bucket_id bins v = None)"
    if s: "sorted_wrt edge_less bins" and ne: "bins \<noteq> []" for bins v
  proof (intro conjI allI impI)
    fix i
    show "bucket_id bins v = Some i \<longleftrightarrow>
            1 \<le> i \<and> i < length bins \<and> edge_le_val (bins ! (i - 1)) v \<and> \<not> edge_le_val (bins ! i) v"
      using s by (rule bucket_id_iff)
  next
    fix i j
    assume "1 \<le> i \<and> i < length bins
              \<and> edge_le_val (bins ! (i - 1)) v \<and> \<not> edge_le_val (bins ! i) v
            \<and> 1 \<le> j \<and> j < length bins
              \<and> edge_le_val (bins ! (j - 1)) v \<and> \<not> edge_le_val (bins ! j) v"
    then have "bucket_id bins v = Some i" "bucket_id bins v = Some j"
      using bucket_id_iff [OF s, of v i] bucket_id_iff [OF s, of v j] by blast+
    then show "i = j" by simp
  next
    assume "\<not> edge_le_val (hd bins) v \<or> edge_le_val (last bins) v"
    with s ne show "bucket_id bins v = None" by (rule bucket_id_none)
  qed
  show "\<forall>bins \<in> {rbins, fbins}. \<forall>v.
            (\<forall>i. bucket_id bins v = Some i \<longleftrightarrow>
                   1 \<le> i \<and> i < length bins
                   \<and> edge_le_val (bins ! (i - 1)) v \<and> \<not> edge_le_val (bins ! i) v)
          \<and> (\<forall>i j. 1 \<le> i \<and> i < length bins
                       \<and> edge_le_val (bins ! (i - 1)) v \<and> \<not> edge_le_val (bins ! i) v
                     \<and> 1 \<le> j \<and> j < length bins
                       \<and> edge_le_val (bins ! (j - 1)) v \<and> \<not> edge_le_val (bins ! j) v
                     \<longrightarrow> i = j)
          \<and> (\<not> edge_le_val (hd bins) v \<or> edge_le_val (last bins) v \<longrightarrow> bucket_id bins v = None)"
  proof (intro ballI allI)
    fix bins v
    assume "bins \<in> {rbins, fbins}"
    then have s: "sorted_wrt edge_less bins" and ne: "bins \<noteq> []"
      using assms by auto
    show "(\<forall>i. bucket_id bins v = Some i \<longleftrightarrow>
                   1 \<le> i \<and> i < length bins
                   \<and> edge_le_val (bins ! (i - 1)) v \<and> \<not> edge_le_val (bins ! i) v)
          \<and> (\<forall>i j. 1 \<le> i \<and> i < length bins
                       \<and> edge_le_val (bins ! (i - 1)) v \<and> \<not> edge_le_val (bins ! i) v
                     \<and> 1 \<le> j \<and> j < length bins
                       \<and> edge_le_val (bins ! (j - 1)) v \<and> \<not> edge_le_val (bins ! j) v
                     \<longrightarrow> i = j)
          \<and> (\<not> edge_le_val (hd bins) v \<or> edge_le_val (last bins) v \<longrightarrow> bucket_id bins v = None)"
      by (rule one [OF s ne])
  qed
next
  define h :: "customer \<Rightarrow> customer" where "h = (\<lambda>c. c\<lparr>Recency_Bucket :=
        map_option (\<lambda>i. ''R'' @ str_nat i) (bucket_id rbins (recency c)),
      Frequency_Bucket := map_option (\<lambda>i. ''F'' @ str_nat i) (bucket_id fbins (frequency c))\<rparr>)"
  define out where "out = assign_segment (dropna_buckets (map h df))"
  have b: "bin_customers df (Some rbins) (Some fbins) = Inr out"
    unfolding out_def h_def using assms by (rule bin_customers_strictly_increasing)
  have d: "dropna_buckets (map h df)
             = map h (filter (\<lambda>c. bucket_id rbins (recency c) \<noteq> None
                               \<and> bucket_id fbins (frequency c) \<noteq> None) df)"
    by (simp add: dropna_buckets_def filter_map comp_def h_def)
  have k: "map (\<lambda>r. (customer_id r, recency r, frequency r)) out
                = map (\<lambda>c. (customer_id c, recency c, frequency c))
                    (filter (\<lambda>c. bucket_id rbins (recency c) \<noteq> None
                               \<and> bucket_id fbins (frequency c) \<noteq> None) df)"
    unfolding out_def d by (simp add: assign_segment_def comp_def h_def)
  have l: "\<forall>r \<in> set out.
                   Recency_Bucket r
                     = map_option (\<lambda>i. ''R'' @ str_nat i) (bucket_id rbins (recency r))
                 \<and> Frequency_Bucket r
                     = map_option (\<lambda>i. ''F'' @ str_nat i) (bucket_id fbins (frequency r))"
    unfolding out_def d by (auto simp: assign_segment_def h_def)
  from b k l show "\<exists>out. bin_customers df (Some rbins) (Some fbins) = Inr out
            \<and> map (\<lambda>r. (customer_id r, recency r, frequency r)) out
                = map (\<lambda>c. (customer_id c, recency c, frequency c))
                    (filter (\<lambda>c. bucket_id rbins (recency c) \<noteq> None
                               \<and> bucket_id fbins (frequency c) \<noteq> None) df)
            \<and> (\<forall>r \<in> set out.
                   Recency_Bucket r
                     = map_option (\<lambda>i. ''R'' @ str_nat i) (bucket_id rbins (recency r))
                 \<and> Frequency_Bucket r
                     = map_option (\<lambda>i. ''F'' @ str_nat i) (bucket_id fbins (frequency r)))"
    by (intro exI [of _ out] conjI)
qed

theorem bucket_rule_witness:
  "sorted_wrt edge_less [Edge 0, Edge 1, Edge 2, PosInf]
   \<and> [Edge 0, Edge 1, Edge 2, PosInf] \<noteq> []
   \<and> sorted_wrt edge_less [Edge 1, Edge 2, PosInf]
   \<and> [Edge 1, Edge 2, PosInf] \<noteq> []
   \<and> bucket_id [Edge 0, Edge 1, Edge 2, PosInf] 1 = Some 2
   \<and> bucket_id [Edge 0, Edge 1, Edge 2, PosInf] (- 1) = None
   \<and> (\<exists>out. bin_customers
          [\<lparr>customer_id = ''c1'', recency = 1, frequency = 2, Recency_Bucket = None,
             Frequency_Bucket = None, Segment = None\<rparr>,
           \<lparr>customer_id = ''c2'', recency = - 1, frequency = 1, Recency_Bucket = None,
             Frequency_Bucket = None, Segment = None\<rparr>]
          (Some [Edge 0, Edge 1, Edge 2, PosInf]) (Some [Edge 1, Edge 2, PosInf]) = Inr out
        \<and> map (\<lambda>r. (customer_id r, recency r, frequency r)) out = [(''c1'', 1, 2)]
        \<and> map Recency_Bucket out = [Some ''R2''] \<and> map Frequency_Bucket out = [Some ''F2''])"
proof -
  define rb where "rb = [Edge 0, Edge 1, Edge 2, PosInf]"
  define fb where "fb = [Edge 1, Edge 2, PosInf]"
  define df where "df =
          [\<lparr>customer_id = ''c1'', recency = 1, frequency = 2, Recency_Bucket = None,
             Frequency_Bucket = None, Segment = None\<rparr>,
           \<lparr>customer_id = ''c2'', recency = - 1, frequency = 1, Recency_Bucket = None,
             Frequency_Bucket = None, Segment = None\<rparr>]"
  have h1: "sorted_wrt edge_less rb" by (simp add: rb_def edge_less_def)
  have h2: "rb \<noteq> []" by (simp add: rb_def)
  have h3: "sorted_wrt edge_less fb" by (simp add: fb_def edge_less_def)
  have h4: "fb \<noteq> []" by (simp add: fb_def)
  note R = bucket_rule [OF h1 h2 h3 h4, of df]
  have rbmem: "rb \<in> {rb, fb}" by simp
  note A = R [THEN conjunct1, THEN bspec, OF rbmem, THEN spec]
  have "bucket_id rb 1 = Some 2 \<longleftrightarrow>
                   (1::nat) \<le> 2 \<and> 2 < length rb
                   \<and> edge_le_val (rb ! (2 - 1)) 1 \<and> \<not> edge_le_val (rb ! 2) 1"
    by (rule A [of 1, THEN conjunct1, THEN spec])
  then have b1: "bucket_id rb 1 = Some 2" by (simp add: rb_def)
  have "\<not> edge_le_val (hd rb) (- 1) \<or> edge_le_val (last rb) (- 1) \<longrightarrow> bucket_id rb (- 1) = None"
    by (rule A [of "- 1", THEN conjunct2, THEN conjunct2])
  then have b2: "bucket_id rb (- 1) = None" by (simp add: rb_def)
  have f1: "bucket_id fb 2 = Some 2" "bucket_id fb 1 = Some 1"
    by (simp_all add: fb_def bucket_id_def searchsorted_right_def Let_def)
  from R [THEN conjunct2] obtain out where okl:
    "bin_customers df (Some rb) (Some fb) = Inr out
     \<and> map (\<lambda>r. (customer_id r, recency r, frequency r)) out
                = map (\<lambda>c. (customer_id c, recency c, frequency c))
                    (filter (\<lambda>c. bucket_id rb (recency c) \<noteq> None
                               \<and> bucket_id fb (frequency c) \<noteq> None) df)
     \<and> (\<forall>r \<in> set out.
                   Recency_Bucket r
                     = map_option (\<lambda>i. ''R'' @ str_nat i) (bucket_id rb (recency r))
                 \<and> Frequency_Bucket r
                     = map_option (\<lambda>i. ''F'' @ str_nat i) (bucket_id fb (frequency r)))" ..
  note o = okl [THEN conjunct1]
  note k = okl [THEN conjunct2, THEN conjunct1]
  note l = okl [THEN conjunct2, THEN conjunct2]
  have k': "map (\<lambda>r. (customer_id r, recency r, frequency r)) out = [(''c1'', 1, 2)]"
    using k by (simp add: df_def b1 b2 f1)
  have s2: "str_nat 2 = ''2''" by code_simp
  have "map Recency_Bucket out
          = map (\<lambda>k. map_option (\<lambda>i. ''R'' @ str_nat i) (bucket_id rb (fst (snd k))))
              (map (\<lambda>r. (customer_id r, recency r, frequency r)) out)"
    using l by (simp add: comp_def)
  then have m1: "map Recency_Bucket out = [Some ''R2'']"
    unfolding k' by (simp add: b1 s2)
  have "map Frequency_Bucket out
          = map (\<lambda>k. map_option (\<lambda>i. ''F'' @ str_nat i) (bucket_id fb (snd (snd k))))
              (map (\<lambda>r. (customer_id r, recency r, frequency r)) out)"
    using l by (simp add: comp_def)
  then have m2: "map Frequency_Bucket out = [Some ''F2'']"
    unfolding k' by (simp add: f1 s2)
  have E: "\<exists>out. bin_customers df (Some rb) (Some fb) = Inr out
        \<and> map (\<lambda>r. (customer_id r, recency r, frequency r)) out = [(''c1'', 1, 2)]
        \<and> map Recency_Bucket out = [Some ''R2''] \<and> map Frequency_Bucket out = [Some ''F2'']"
    using o k' m1 m2 by (intro exI [of _ out] conjI)
  show ?thesis
    using h1 h2 h3 h4 b1 b2 E unfolding rb_def fb_def df_def by (intro conjI)
qed

section \<open>Properties of the order history processing\<close>

lemma grouped_summary_emails:
  "s \<in> set (grouped_summary df current_date) \<Longrightarrow> customer_summary.customer_email s \<noteq> None"
  by (auto simp: grouped_summary_def agg_def Let_def)

lemma final_dropna_drops_nothing:
  "aggregate_customer_data df current_date = grouped_summary df current_date"
  unfolding aggregate_customer_data_def
  by (rule filter_True) (simp add: grouped_summary_emails)

lemma null_email_rows_not_grouped:
  assumes "\<forall>r \<in> set df. order_row.customer_email r = None"
  shows "grouped_summary df current_date = []"
proof -
  have "List.map_filter
       (\<lambda>r. case (order_row.customer_id r, order_row.customer_email r) of
               (Some i, Some e) \<Rightarrow> Some (i, e)
             | _ \<Rightarrow> None) df = []"
    using assms by (induction df) (simp_all add: List.map_filter_simps split: option.splits)
  then show ?thesis by (simp add: grouped_summary_def group_keys_def)
qed

text \<open>
  C7. One order of customer 7 without an email. In the aggregator alone the row is left
  out by the grouping itself, before any metric is computed, and the later
  \<^verbatim>\<open>dropna\<close> finds nothing to drop. After cleaning, the missing email is the string
  \<^verbatim>\<open>nan\<close>: the order is aggregated and the customer stays in the summary.
\<close>

theorem null_email_customer:
  "grouped_summary
     [\<lparr>order_row.customer_id = Some ''7'', order_id = Some ''1001'', day = Some (2024, 1, 15),
        customer_email = None, gross_sales = 10, discounts = 0, net_sales = 10\<rparr>]
     (2024, 6) = []
   \<and> aggregate_customer_data (clean_and_convert_data
     [\<lparr>order_row.customer_id = Some ''7'', order_id = Some ''1001'', day = Some (2024, 1, 15),
        customer_email = None, gross_sales = 10, discounts = 0, net_sales = 10\<rparr>])
     (2024, 6)
     = [\<lparr>customer_summary.customer_id = ''7'', customer_email = Some ''nan'', frequency = 1,
          last_order_date = Some (2024, 1, 15), gross_sales = 10, discounts = 0,
          net_sales = 10, recency = Some 5\<rparr>]"
  by code_simp

section \<open>Properties of the effects\<close>





end
